theory Spec2Isabelle
  imports Complex_Main "HOL-Library.Word" "HOL-Library.AList"
begin

unbundle bit_operations_syntax

section \<open>Text\<close>

text \<open>
  A Python \<open>str\<close> is a sequence of Unicode code points. A code point is a natural
  number and a string a list of them; \<open>cp\<close> writes an ASCII literal as such a list.
\<close>

type_synonym cpoint = nat
type_synonym ustr = "nat list"

definition cp :: "string \<Rightarrow> ustr" where
  "cp s = map of_char s"

text \<open>The characters the program names: \<open>-\<close>, \<open>_\<close>, the space, the dot.\<close>

abbreviation HYPHEN :: nat where "HYPHEN \<equiv> 45"
abbreviation UNDERSCORE :: nat where "UNDERSCORE \<equiv> 95"
abbreviation SPACE :: nat where "SPACE \<equiv> 32"
abbreviation DOT :: nat where "DOT \<equiv> 46"

text \<open>
  The program reads the Unicode character database through \<open>unicodedata.normalize\<close>,
  \<open>unicodedata.combining\<close>, the classes \<open>\w\<close> and \<open>\s\<close> of \<open>re\<close>, \<open>str.strip\<close> and
  \<open>str.lower\<close>. The tables are not part of the repository; they are a parameter:
  \<^item> \<open>decomp c\<close>: the full compatibility decomposition of the code point \<open>c\<close>;
  \<^item> \<open>ccc c\<close>: its canonical combining class (\<open>unicodedata.combining\<close>);
  \<^item> \<open>isalnum c\<close>: \<open>str.isalnum\<close>; the class \<open>\w\<close> is \<open>isalnum\<close> or the underscore;
  \<^item> \<open>isspace c\<close>: the whitespace that both \<open>\s\<close> and \<open>str.strip()\<close> use;
  \<^item> \<open>tolower c\<close>: the full lower-case mapping of \<open>c\<close>;
  \<^item> \<open>cased\<close>, \<open>case_ignorable\<close>: the properties \<open>str.lower\<close> consults around a capital sigma.
\<close>

record ucd =
  decomp :: "nat \<Rightarrow> nat list"
  ccc :: "nat \<Rightarrow> nat"
  isalnum :: "nat \<Rightarrow> bool"
  isspace :: "nat \<Rightarrow> bool"
  tolower :: "nat \<Rightarrow> nat list"
  cased :: "nat \<Rightarrow> bool"
  case_ignorable :: "nat \<Rightarrow> bool"

subsection \<open>Library operations on strings\<close>

text \<open>
  \<open>unicodedata.normalize("NFKD", s)\<close>: every code point is replaced by its full
  decomposition, then every maximal run of characters with a non-zero combining class is
  sorted by combining class, stably (the canonical ordering).
\<close>

function canonical_order :: "ucd \<Rightarrow> ustr \<Rightarrow> ustr" where
  "canonical_order U [] = []"
| "canonical_order U (c # cs) =
     (if ccc U c = 0 then c # canonical_order U cs
      else sort_key (ccc U) (c # takeWhile (\<lambda>d. ccc U d \<noteq> 0) cs)
           @ canonical_order U (dropWhile (\<lambda>d. ccc U d \<noteq> 0) cs))"
  by pat_completeness auto
termination
  by (relation "measure (\<lambda>(U, s). length s)")
     (auto simp: length_dropWhile_le less_Suc_eq_le)

definition nfkd :: "ucd \<Rightarrow> ustr \<Rightarrow> ustr" where
  "nfkd U s = canonical_order U (concat (map (decomp U) s))"

text \<open>\<open>s.strip()\<close> drops the whitespace at both ends; \<open>s.strip(chars)\<close> the given characters.\<close>

definition strip_chars :: "(nat \<Rightarrow> bool) \<Rightarrow> ustr \<Rightarrow> ustr" where
  "strip_chars P s = rev (dropWhile P (rev (dropWhile P s)))"

definition strip :: "ucd \<Rightarrow> ustr \<Rightarrow> ustr" where
  "strip U s = strip_chars (isspace U) s"

text \<open>
  \<open>s.lower()\<close>: every character is replaced by its lower-case mapping, but for the capital
  sigma (U+03A3), which becomes the final sigma (U+03C2) when a cased letter precedes it
  and none follows it, case-ignorable characters skipped, and the small sigma (U+03C3)
  otherwise. \<open>pre\<close> is the text to the left of the character, nearest first, and
  \<open>post\<close> the text to its right.
\<close>

definition handle_capital_sigma :: "ucd \<Rightarrow> ustr \<Rightarrow> ustr \<Rightarrow> nat" where
  "handle_capital_sigma U pre post =
     (case dropWhile (case_ignorable U) pre of
        [] \<Rightarrow> 963
      | b # _ \<Rightarrow>
          if cased U b then
            (case dropWhile (case_ignorable U) post of
               [] \<Rightarrow> 962
             | a # _ \<Rightarrow> if cased U a then 963 else 962)
          else 963)"

fun lower_from :: "ucd \<Rightarrow> ustr \<Rightarrow> ustr \<Rightarrow> ustr" where
  "lower_from U pre [] = []"
| "lower_from U pre (c # post) =
     (if c = 931 then [handle_capital_sigma U pre post] else tolower U c)
     @ lower_from U (c # pre) post"

definition str_lower :: "ucd \<Rightarrow> ustr \<Rightarrow> ustr" where
  "str_lower U s = lower_from U [] s"

text \<open>
  \<open>re.sub(r"[...]+", r, s)\<close> for a character class: every maximal run of characters of the
  class is replaced by \<open>r\<close>.
\<close>

function sub_runs :: "(nat \<Rightarrow> bool) \<Rightarrow> ustr \<Rightarrow> ustr \<Rightarrow> ustr" where
  "sub_runs P r [] = []"
| "sub_runs P r (c # cs) =
     (if P c then r @ sub_runs P r (dropWhile P cs) else c # sub_runs P r cs)"
  by pat_completeness auto
termination
  by (relation "measure (\<lambda>(P, r, s). length s)")
     (auto simp: length_dropWhile_le less_Suc_eq_le)

text \<open>\<open>str(n)\<close> of a natural number, as an f-string renders it: its decimal digits.\<close>

function str_of_nat :: "nat \<Rightarrow> ustr" where
  "str_of_nat n = (if n < 10 then [48 + n] else str_of_nat (n div 10) @ [48 + n mod 10])"
  by pat_completeness auto
termination
  by (relation "measure (\<lambda>n. n)") auto

section \<open>Name utilities\<close>

text \<open>
  \<^verbatim>\<open>def remove_accents(s): return "".join(ch for ch in unicodedata.normalize("NFKD", s)
                                            if not unicodedata.combining(ch))\<close>
\<close>

definition remove_accents :: "ucd \<Rightarrow> ustr \<Rightarrow> ustr" where
  "remove_accents U s = filter (\<lambda>ch. ccc U ch = 0) (nfkd U s)"

text \<open>The class \<open>\w\<close> of \<open>re\<close> under \<open>re.UNICODE\<close>.\<close>

definition word :: "ucd \<Rightarrow> nat \<Rightarrow> bool" where
  "word U c = (isalnum U c \<or> c = UNDERSCORE)"

text \<open>
  \<^verbatim>\<open>def to_snake_case(s):
      s = re.sub(r"[^\w\s-]", " ", s, flags=re.UNICODE)
      s = re.sub(r"[-\s]+", "_", s.strip().lower())
      s = re.sub(r"_+", "_", s)
      return s\<close>
\<close>

definition to_snake_case :: "ucd \<Rightarrow> ustr \<Rightarrow> ustr" where
  "to_snake_case U s =
     (let s1 = map (\<lambda>c. if word U c \<or> isspace U c \<or> c = HYPHEN then c else SPACE) s;
          s2 = sub_runs (\<lambda>c. c = HYPHEN \<or> isspace U c) [UNDERSCORE] (str_lower U (strip U s1));
          s3 = sub_runs (\<lambda>c. c = UNDERSCORE) [UNDERSCORE] s2
      in s3)"

text \<open>
  The name of one header, lines 28 to 30 of \<open>normalize_headers\<close>:
  \<^verbatim>\<open>name = to_snake_case(remove_accents(str(c).strip()))
  if not name:
      name = "columna"\<close>
  The header \<open>c\<close> is taken as the text \<open>str(c)\<close>.
\<close>

definition normalize_name :: "ucd \<Rightarrow> ustr \<Rightarrow> ustr" where
  "normalize_name U c =
     (let name = to_snake_case U (remove_accents U (strip U c))
      in if name = [] then cp ''columna'' else name)"

text \<open>
  The loop of \<open>normalize_headers\<close> over \<open>df.columns\<close>, with its two variables: the
  dictionary \<open>seen\<close> and the list \<open>new_cols\<close>.
  \<^verbatim>\<open>if name in seen:
      seen[name] += 1
      name = f"{name}_{seen[name]}"
  else:
      seen[name] = 0
  new_cols.append(name)\<close>
\<close>

fun normalize_headers_loop ::
  "ucd \<Rightarrow> ustr list \<Rightarrow> (ustr \<rightharpoonup> nat) \<Rightarrow> ustr list \<Rightarrow> ustr list" where
  "normalize_headers_loop U [] seen new_cols = new_cols"
| "normalize_headers_loop U (c # cs) seen new_cols =
     (let name = normalize_name U c in
      case seen name of
        Some k \<Rightarrow>
          normalize_headers_loop U cs (seen(name \<mapsto> k + 1))
            (new_cols @ [name @ UNDERSCORE # str_of_nat (k + 1)])
      | None \<Rightarrow>
          normalize_headers_loop U cs (seen(name \<mapsto> 0)) (new_cols @ [name]))"

definition normalize_columns :: "ucd \<Rightarrow> ustr list \<Rightarrow> ustr list" where
  "normalize_columns U cols = normalize_headers_loop U cols Map.empty []"

text \<open>
  The rule of the duplicates, as the specification words it: a name that \<open>k\<close> earlier
  headers share is kept when \<open>k\<close> is 0 and gets the suffix \<open>_k\<close> otherwise.
  \<open>seen_after names\<close> is the dictionary \<open>seen\<close> once the loop has gone through \<open>names\<close>.
\<close>

definition suffixed :: "ustr \<Rightarrow> nat \<Rightarrow> ustr" where
  "suffixed name k = (if k = 0 then name else name @ UNDERSCORE # str_of_nat k)"

definition seen_after :: "ustr list \<Rightarrow> (ustr \<rightharpoonup> nat)" where
  "seen_after names n =
     (if count_list names n = 0 then None else Some (count_list names n - 1))"

section \<open>The tables on ASCII\<close>

text \<open>
  What CPython's tables say below 128: no character decomposes or combines, the
  alphanumerics are the digits and the letters, the whitespace is the tab, the line feed,
  the vertical tab, the form feed, the carriage return, the four separators 28 to 31 and
  the space, and lower-casing adds 32 to a capital letter.
\<close>

definition ascii_alnum :: "nat \<Rightarrow> bool" where
  "ascii_alnum c = (48 \<le> c \<and> c \<le> 57 \<or> 65 \<le> c \<and> c \<le> 90 \<or> 97 \<le> c \<and> c \<le> 122)"

definition ascii_space :: "nat \<Rightarrow> bool" where
  "ascii_space c = (9 \<le> c \<and> c \<le> 13 \<or> 28 \<le> c \<and> c \<le> 32)"

definition ascii_lower :: "nat \<Rightarrow> nat" where
  "ascii_lower c = (if 65 \<le> c \<and> c \<le> 90 then c + 32 else c)"

definition ascii_agree :: "ucd \<Rightarrow> bool" where
  "ascii_agree U =
     (\<forall>c<128. decomp U c = [c] \<and> ccc U c = 0 \<and> isalnum U c = ascii_alnum c
              \<and> isspace U c = ascii_space c \<and> tolower U c = [ascii_lower c])"

text \<open>
  What the normalizer needs of the tables, beyond ASCII. A character is \<open>nfkd_stable\<close> when
  it is its own decomposition and does not combine. A \<open>name_char\<close> is a character that
  can stand in a normalized name: a stable word character that is neither whitespace nor
  the hyphen nor the capital sigma, and is its own lower case. The database is \<open>ucd_ok\<close>
  when it agrees with ASCII, decompositions are full, lower-casing a stable word
  character, whitespace or hyphen gives name characters, whitespace or hyphens, the two
  small sigmas are name characters, and alphanumerics are scalar values (UTF-8 encodes
  them). Each holds of the Unicode Character Database.
\<close>

definition nfkd_stable :: "ucd \<Rightarrow> nat \<Rightarrow> bool" where
  "nfkd_stable U c = (decomp U c = [c] \<and> ccc U c = 0)"

definition name_char :: "ucd \<Rightarrow> nat \<Rightarrow> bool" where
  "name_char U c =
     (nfkd_stable U c \<and> word U c \<and> \<not> isspace U c \<and> c \<noteq> HYPHEN \<and> c \<noteq> 931 \<and> tolower U c = [c])"

definition scalar_value :: "nat \<Rightarrow> bool" where
  "scalar_value c = (c < 0xD800 \<or> 0xDFFF < c \<and> c < 0x110000)"

definition ucd_ok :: "ucd \<Rightarrow> bool" where
  "ucd_ok U =
     (ascii_agree U
      \<and> (\<forall>c. \<forall>d\<in>set (decomp U c). decomp U d = [d])
      \<and> (\<forall>c. nfkd_stable U c \<and> (word U c \<or> isspace U c \<or> c = HYPHEN) \<and> c \<noteq> 931 \<longrightarrow>
             (\<forall>d\<in>set (tolower U c). name_char U d \<or> isspace U d \<or> d = HYPHEN))
      \<and> name_char U 962 \<and> name_char U 963
      \<and> (\<forall>c. isalnum U c \<longrightarrow> scalar_value c))"

text \<open>No two underscores side by side.\<close>

fun no_double :: "nat \<Rightarrow> ustr \<Rightarrow> bool" where
  "no_double u (a # b # s) = (\<not> (a = u \<and> b = u) \<and> no_double u (b # s))"
| "no_double u s = True"

text \<open>
  A database to compute with: the tables on ASCII, on the accented letters of Spanish
  (the acute vowels, the n with tilde and the u with diaeresis, whose decompositions use
  the combining marks U+0301, U+0303 and U+0308, of combining class 230) and on the
  three sigmas of Greek. Every other code point is left as an unassigned one: no
  decomposition, not alphanumeric, not whitespace, no case.
\<close>

definition spanish_base :: "nat \<Rightarrow> (nat \<times> nat) option" where
  "spanish_base c =
     (if c = 193 then Some (65, 769) else if c = 201 then Some (69, 769)
      else if c = 205 then Some (73, 769) else if c = 211 then Some (79, 769)
      else if c = 218 then Some (85, 769) else if c = 209 then Some (78, 771)
      else if c = 220 then Some (85, 776)
      else if c = 225 then Some (97, 769) else if c = 233 then Some (101, 769)
      else if c = 237 then Some (105, 769) else if c = 243 then Some (111, 769)
      else if c = 250 then Some (117, 769) else if c = 241 then Some (110, 771)
      else if c = 252 then Some (117, 776)
      else None)"

definition sigma :: "nat \<Rightarrow> bool" where
  "sigma c = (c = 931 \<or> c = 962 \<or> c = 963)"

definition sample_ucd :: ucd where
  "sample_ucd =
     \<lparr> decomp = (\<lambda>c. case spanish_base c of Some (b, m) \<Rightarrow> [b, m] | None \<Rightarrow> [c]),
       ccc = (\<lambda>c. if c = 769 \<or> c = 771 \<or> c = 776 then 230 else 0),
       isalnum = (\<lambda>c. ascii_alnum c \<or> spanish_base c \<noteq> None \<or> sigma c),
       isspace = ascii_space,
       tolower = (\<lambda>c. if spanish_base c \<noteq> None \<and> c < 224 then [c + 32]
                       else if c = 931 then [963] else [ascii_lower c]),
       cased = (\<lambda>c. 65 \<le> c \<and> c \<le> 90 \<or> 97 \<le> c \<and> c \<le> 122 \<or> spanish_base c \<noteq> None
                     \<or> sigma c),
       case_ignorable = (\<lambda>c. c = 39 \<or> c = 46 \<or> c = 58 \<or> c = 94 \<or> c = 96
                              \<or> c = 769 \<or> c = 771 \<or> c = 776) \<rparr>"

section \<open>File names\<close>

text \<open>
  Errors are values. \<open>InvalidConfig\<close> is the \<open>ValueError\<close> that \<open>read_excel_all_sheets\<close>
  raises itself; the others are raised by the libraries: by \<open>pd.ExcelFile\<close> and
  \<open>pd.read_excel\<close> (\<open>FileNotFound\<close>, \<open>UnreadableFile\<close>, \<open>WorksheetNotFound\<close>), by
  \<open>pd.concat\<close> (\<open>NoObjectsToConcatenate\<close>, \<open>InvalidIndexError\<close>), by indexing a frame
  (\<open>KeyError\<close>), by \<open>pd.to_numeric\<close> (\<open>TypeError\<close>, \<open>OverflowError\<close>) and by
  \<open>str.encode\<close> (\<open>UnicodeEncodeError\<close>).
\<close>

datatype py_error =
    InvalidConfig | FileNotFound | UnreadableFile | WorksheetNotFound
  | NoObjectsToConcatenate | InvalidIndexError | KeyError | TypeError | OverflowError
  | UnicodeEncodeError

text \<open>\<open>s.encode("utf-8")\<close>: a list of bytes; a surrogate cannot be encoded.\<close>

definition encode_char :: "nat \<Rightarrow> nat list option" where
  "encode_char c =
     (if c < 0x80 then Some [c]
      else if c < 0x800 then Some [0xC0 + c div 64, 0x80 + c mod 64]
      else if c < 0x10000 then
        (if 0xD800 \<le> c \<and> c \<le> 0xDFFF then None
         else Some [0xE0 + c div 4096, 0x80 + (c div 64) mod 64, 0x80 + c mod 64])
      else if c < 0x110000 then
        Some [0xF0 + c div 262144, 0x80 + (c div 4096) mod 64, 0x80 + (c div 64) mod 64,
              0x80 + c mod 64]
      else None)"

definition encode_utf8 :: "ustr \<Rightarrow> nat list option" where
  "encode_utf8 s = map_option concat (those (map encode_char s))"

text \<open>
  \<open>hashlib.md5(bytes).hexdigest()\<close>: the MD5 digest (RFC 1321) of a list of bytes, as 32
  lower-case hexadecimal digits.
\<close>

definition md5_K :: "32 word list" where
  "md5_K =
     [0xd76aa478, 0xe8c7b756, 0x242070db, 0xc1bdceee,
      0xf57c0faf, 0x4787c62a, 0xa8304613, 0xfd469501,
      0x698098d8, 0x8b44f7af, 0xffff5bb1, 0x895cd7be,
      0x6b901122, 0xfd987193, 0xa679438e, 0x49b40821,
      0xf61e2562, 0xc040b340, 0x265e5a51, 0xe9b6c7aa,
      0xd62f105d, 0x02441453, 0xd8a1e681, 0xe7d3fbc8,
      0x21e1cde6, 0xc33707d6, 0xf4d50d87, 0x455a14ed,
      0xa9e3e905, 0xfcefa3f8, 0x676f02d9, 0x8d2a4c8a,
      0xfffa3942, 0x8771f681, 0x6d9d6122, 0xfde5380c,
      0xa4beea44, 0x4bdecfa9, 0xf6bb4b60, 0xbebfbc70,
      0x289b7ec6, 0xeaa127fa, 0xd4ef3085, 0x04881d05,
      0xd9d4d039, 0xe6db99e5, 0x1fa27cf8, 0xc4ac5665,
      0xf4292244, 0x432aff97, 0xab9423a7, 0xfc93a039,
      0x655b59c3, 0x8f0ccc92, 0xffeff47d, 0x85845dd1,
      0x6fa87e4f, 0xfe2ce6e0, 0xa3014314, 0x4e0811a1,
      0xf7537e82, 0xbd3af235, 0x2ad7d2bb, 0xeb86d391]"

definition md5_s :: "nat list" where
  "md5_s = concat (replicate 4 [7, 12, 17, 22]) @ concat (replicate 4 [5, 9, 14, 20])
         @ concat (replicate 4 [4, 11, 16, 23]) @ concat (replicate 4 [6, 10, 15, 21])"

definition le_bytes :: "nat \<Rightarrow> nat \<Rightarrow> nat list" where
  "le_bytes k v = map (\<lambda>i. (v div 256 ^ i) mod 256) [0..<k]"

definition le_word :: "nat list \<Rightarrow> 32 word" where
  "le_word bs = foldr (\<lambda>b w. of_nat b + 256 * w) bs 0"

definition md5_pad :: "nat list \<Rightarrow> nat list" where
  "md5_pad m =
     m @ [128] @ replicate ((119 - length m mod 64) mod 64) 0
       @ le_bytes 8 ((8 * length m) mod 2 ^ 64)"

definition md5_step ::
  "32 word list \<Rightarrow> nat \<Rightarrow> 32 word \<times> 32 word \<times> 32 word \<times> 32 word
     \<Rightarrow> 32 word \<times> 32 word \<times> 32 word \<times> 32 word" where
  "md5_step M i st =
     (case st of (a, b, c, d) \<Rightarrow>
        let (f, g) =
              (if i < 16 then ((b AND c) OR (NOT b AND d), i)
               else if i < 32 then ((d AND b) OR (NOT d AND c), (5 * i + 1) mod 16)
               else if i < 48 then (b XOR c XOR d, (3 * i + 5) mod 16)
               else (c XOR (b OR NOT d), (7 * i) mod 16))
        in (d, b + word_rotl (md5_s ! i) (f + a + md5_K ! i + M ! g), b, c))"

definition md5_block ::
  "nat list \<Rightarrow> 32 word \<times> 32 word \<times> 32 word \<times> 32 word
     \<Rightarrow> 32 word \<times> 32 word \<times> 32 word \<times> 32 word" where
  "md5_block block st =
     (let M = map (\<lambda>j. le_word (take 4 (drop (4 * j) block))) [0..<16] in
      case (st, fold (md5_step M) [0..<64] st) of
        ((a0, b0, c0, d0), (a, b, c, d)) \<Rightarrow> (a0 + a, b0 + b, c0 + c, d0 + d))"

definition md5_digest :: "nat list \<Rightarrow> nat list" where
  "md5_digest m =
     (let p = md5_pad m;
          blocks = map (\<lambda>k. take 64 (drop (64 * k) p)) [0..<length p div 64] in
      case fold md5_block blocks (0x67452301, 0xefcdab89, 0x98badcfe, 0x10325476) of
        (a, b, c, d) \<Rightarrow> concat (map (\<lambda>w. le_bytes 4 (unat w)) [a, b, c, d]))"

definition hex_digit :: "nat \<Rightarrow> nat" where
  "hex_digit n = (if n < 10 then 48 + n else 87 + n)"

definition md5_hexdigest :: "nat list \<Rightarrow> ustr" where
  "md5_hexdigest m =
     concat (map (\<lambda>b. [hex_digit (b div 16), hex_digit (b mod 16)]) (md5_digest m))"

text \<open>The slice \<open>s[:n]\<close> of Python: a negative \<open>n\<close> counts from the end.\<close>

definition py_prefix :: "int \<Rightarrow> 'a list \<Rightarrow> 'a list" where
  "py_prefix n s = (if 0 \<le> n then take (nat n) s else take (length s - nat (- n)) s)"

text \<open>The characters of the class \<^verbatim>\<open>[\\/:*?"<>|]\<close>.\<close>

definition reserved :: "nat \<Rightarrow> bool" where
  "reserved c = (c = 92 \<or> c = 47 \<or> c = 58 \<or> c = 42 \<or> c = 63 \<or> c = 34 \<or> c = 60 \<or> c = 62
                 \<or> c = 124)"

text \<open>
  \<^verbatim>\<open>def safe_filename(name, max_len=100):
      base = to_snake_case(remove_accents(str(name)))
      base = re.sub(r'[\\/:*?"<>|]+', "_", base).strip(" .")
      if not base:
          base = "columna"
      if len(base) > max_len:
          h = hashlib.md5(base.encode("utf-8")).hexdigest()[:8]
          base = f"{base[:max_len-9]}_{h}"
      return base\<close>
  \<open>filename_base\<close> is \<open>base\<close> as it stands before the test of its length.
\<close>

definition filename_base :: "ucd \<Rightarrow> ustr \<Rightarrow> ustr" where
  "filename_base U name =
     (let base = to_snake_case U (remove_accents U name);
          base = strip_chars (\<lambda>c. c = SPACE \<or> c = DOT) (sub_runs reserved [UNDERSCORE] base)
      in if base = [] then cp ''columna'' else base)"

definition safe_filename :: "ucd \<Rightarrow> ustr \<Rightarrow> int \<Rightarrow> py_error + ustr" where
  "safe_filename U name max_len =
     (let base = filename_base U name in
      if int (length base) > max_len then
        (case encode_utf8 base of
           None \<Rightarrow> Inl UnicodeEncodeError
         | Some bytes \<Rightarrow>
             let h = take 8 (md5_hexdigest bytes)
             in Inr (py_prefix (max_len - 9) base @ UNDERSCORE # h))
      else Inr base)"

section \<open>Tables\<close>

text \<open>
  A cell is null (\<open>None\<close>, \<open>NaN\<close>, \<open>pd.NA\<close>), a number or a text. A number is a finite
  one, with its exact value, or an infinity of floating point.
\<close>

datatype number = Finite rat | Infinity

datatype cell = Null | Num number | Text ustr

text \<open>
  A \<open>DataFrame\<close>: the length of its index and its columns in order, each a label with
  its cells. Labels can repeat. The frame is well formed when every column has one cell
  for every row.
\<close>

record dataframe =
  nrows :: nat
  cols :: "(ustr \<times> cell list) list"

definition wf_df :: "dataframe \<Rightarrow> bool" where
  "wf_df df = list_all (\<lambda>(l, d). length d = nrows df) (cols df)"

text \<open>\<open>df.columns\<close>.\<close>

definition df_columns :: "dataframe \<Rightarrow> ustr list" where
  "df_columns df = map fst (cols df)"

text \<open>\<open>df[c]\<close>: the columns under the label \<open>c\<close> (one is a \<open>Series\<close>, more a frame).\<close>

definition df_getitem :: "dataframe \<Rightarrow> ustr \<Rightarrow> cell list list" where
  "df_getitem df c = map snd (filter (\<lambda>(l, d). l = c) (cols df))"

text \<open>
  \<open>df[c] = v\<close> for a scalar \<open>v\<close>: every column under the label \<open>c\<close> is filled with \<open>v\<close>;
  when there is none, a column is added at the end.
\<close>

definition df_setitem :: "dataframe \<Rightarrow> ustr \<Rightarrow> cell \<Rightarrow> dataframe" where
  "df_setitem df c v =
     (if c \<in> set (df_columns df)
      then df\<lparr>cols := map (\<lambda>(l, d). if l = c then (l, replicate (nrows df) v) else (l, d)) (cols df)\<rparr>
      else df\<lparr>cols := cols df @ [(c, replicate (nrows df) v)]\<rparr>)"

text \<open>
  \<open>df[labels]\<close> for a list of labels: for every label in turn, the columns under it;
  a label the frame does not have raises \<open>KeyError\<close>.
\<close>

definition df_select :: "dataframe \<Rightarrow> ustr list \<Rightarrow> py_error + dataframe" where
  "df_select df labels =
     (if list_all (\<lambda>l. l \<in> set (df_columns df)) labels
      then Inr (df\<lparr>cols := concat (map (\<lambda>l. filter (\<lambda>(l', d). l' = l) (cols df)) labels)\<rparr>)
      else Inl KeyError)"

text \<open>
  \<open>pd.concat(frames, ignore_index=True)\<close>: no frame raises \<open>ValueError\<close>; frames with
  the same labels in the same order are stacked; otherwise the labels are united in the
  order they first occur (\<open>first_seen\<close> keeps the first occurrence of each) and a frame
  has null where it lacks a column, which pandas refuses when a frame repeats a label.
\<close>

definition first_seen :: "'a list \<Rightarrow> 'a list" where
  "first_seen xs = rev (remdups (rev xs))"

definition stack_column :: "dataframe list \<Rightarrow> ustr \<Rightarrow> nat \<Rightarrow> ustr \<times> cell list" where
  "stack_column dfs l j = (l, concat (map (\<lambda>df. snd (cols df ! j)) dfs))"

definition join_column :: "dataframe list \<Rightarrow> ustr \<Rightarrow> ustr \<times> cell list" where
  "join_column dfs l =
     (l, concat (map (\<lambda>df. case map_of (cols df) l of
                              Some d \<Rightarrow> d
                            | None \<Rightarrow> replicate (nrows df) Null) dfs))"

definition pd_concat :: "dataframe list \<Rightarrow> py_error + dataframe" where
  "pd_concat dfs =
     (case dfs of
        [] \<Rightarrow> Inl NoObjectsToConcatenate
      | df # _ \<Rightarrow>
          if list_all (\<lambda>d. df_columns d = df_columns df) dfs
          then Inr \<lparr> nrows = sum_list (map nrows dfs),
                     cols = map (\<lambda>j. stack_column dfs (df_columns df ! j) j)
                              [0..<length (cols df)] \<rparr>
          else if list_all (\<lambda>d. distinct (df_columns d)) dfs
          then Inr \<lparr> nrows = sum_list (map nrows dfs),
                     cols = map (join_column dfs) (first_seen (concat (map df_columns dfs))) \<rparr>
          else Inl InvalidIndexError)"

text \<open>
  \<^verbatim>\<open>def normalize_headers(df):
      ...
      out = df.copy()
      out.columns = new_cols
      return out\<close>
\<close>

definition normalize_headers :: "ucd \<Rightarrow> dataframe \<Rightarrow> dataframe" where
  "normalize_headers U df =
     df\<lparr>cols := zip (normalize_columns U (df_columns df)) (map snd (cols df))\<rparr>"

section \<open>Reading and unifying the sheets\<close>

text \<open>
  The files are a parameter: \<open>world path\<close> is what opening the workbook at \<open>path\<close> gives,
  an error or its sheets in order, each a name with a frame. What the program does to
  the files is recorded as a trace of events.
\<close>

type_synonym workbook = "(ustr \<times> dataframe) list"
type_synonym files = "ustr \<Rightarrow> py_error + workbook"

datatype event = OpenWorkbook ustr | ReadSheet ustr ustr

text \<open>The argument \<open>sheets_cfg\<close>: a string, a list of names, or any other object.\<close>

datatype sheets_cfg = CfgStr ustr | CfgList "ustr list" | CfgOther

text \<open>\<open>pd.read_excel(path, sheet_name=sh, dtype="object")\<close>.\<close>

definition read_excel :: "files \<Rightarrow> ustr \<Rightarrow> ustr \<Rightarrow> py_error + dataframe" where
  "read_excel world path sh =
     (case world path of
        Inl e \<Rightarrow> Inl e
      | Inr wb \<Rightarrow> (case map_of wb sh of None \<Rightarrow> Inl WorksheetNotFound | Some df \<Rightarrow> Inr df))"

text \<open>
  The dictionary comprehension of \<open>read_excel_all_sheets\<close>, one sheet after the other;
  \<open>frames\<close> is the dictionary so far, in insertion order, and \<open>trace\<close> the events so far.
\<close>

fun read_frames ::
  "files \<Rightarrow> ustr \<Rightarrow> ustr list \<Rightarrow> (ustr \<times> dataframe) list \<Rightarrow> event list
     \<Rightarrow> event list \<times> (py_error + (ustr \<times> dataframe) list)" where
  "read_frames world path [] frames trace = (trace, Inr frames)"
| "read_frames world path (sh # shs) frames trace =
     (case read_excel world path sh of
        Inl e \<Rightarrow> (trace @ [ReadSheet path sh], Inl e)
      | Inr df \<Rightarrow>
          read_frames world path shs (AList.update sh df frames) (trace @ [ReadSheet path sh]))"

text \<open>
  \<^verbatim>\<open>def read_excel_all_sheets(path, sheets_cfg="all"):
      xls = pd.ExcelFile(path)
      if sheets_cfg == "all":
          sheets = xls.sheet_names
      elif isinstance(sheets_cfg, list):
          sheets = sheets_cfg
      else:
          raise ValueError("sheets_cfg debe ser 'all' o lista de nombres de hoja.")
      frames = {sh: pd.read_excel(path, sheet_name=sh, dtype="object") for sh in sheets}
      return frames\<close>
  The result is the trace of events with the error or the frames.
\<close>

definition read_excel_all_sheets ::
  "files \<Rightarrow> ustr \<Rightarrow> sheets_cfg \<Rightarrow> event list \<times> (py_error + (ustr \<times> dataframe) list)" where
  "read_excel_all_sheets world path cfg =
     (case world path of
        Inl e \<Rightarrow> ([OpenWorkbook path], Inl e)
      | Inr xls \<Rightarrow>
          if cfg = CfgStr (cp ''all'') then
            read_frames world path (map fst xls) [] [OpenWorkbook path]
          else
            (case cfg of
               CfgList sheets \<Rightarrow> read_frames world path sheets [] [OpenWorkbook path]
             | _ \<Rightarrow> ([OpenWorkbook path], Inl InvalidConfig)))"

text \<open>
  One turn of the second loop of \<open>unify_sheets\<close>:
  \<^verbatim>\<open>tmp = df.copy()
  for c in all_cols:
      if c not in tmp.columns:
          tmp[c] = pd.NA
  tmp = tmp[all_cols]
  tmp["_sheet"] = sh\<close>
\<close>

definition add_missing :: "dataframe \<Rightarrow> ustr list \<Rightarrow> dataframe" where
  "add_missing df all_cols =
     foldl (\<lambda>tmp c. if c \<notin> set (df_columns tmp) then df_setitem tmp c Null else tmp) df all_cols"

definition align :: "ustr list \<Rightarrow> ustr \<Rightarrow> dataframe \<Rightarrow> py_error + dataframe" where
  "align all_cols sh df =
     (case df_select (add_missing df all_cols) all_cols of
        Inl e \<Rightarrow> Inl e
      | Inr tmp \<Rightarrow> Inr (df_setitem tmp (cp ''_sheet'') (Text sh)))"

text \<open>The loop stops at the first error.\<close>

fun align_all ::
  "ustr list \<Rightarrow> (ustr \<times> dataframe) list \<Rightarrow> py_error + dataframe list" where
  "align_all all_cols [] = Inr []"
| "align_all all_cols ((sh, df) # rest) =
     (case align all_cols sh df of
        Inl e \<Rightarrow> Inl e
      | Inr tmp \<Rightarrow>
          (case align_all all_cols rest of Inl e \<Rightarrow> Inl e | Inr aligned \<Rightarrow> Inr (tmp # aligned)))"

text \<open>
  \<^verbatim>\<open>def unify_sheets(frames):
      frames_norm = {sh: normalize_headers(df) for sh, df in frames.items()}
      all_cols = set()
      for df in frames_norm.values():
          all_cols.update(df.columns.tolist())
      all_cols = list(all_cols)
      aligned = []
      for sh, df in frames_norm.items():
          ...
          aligned.append(tmp)
      return pd.concat(aligned, ignore_index=True)\<close>
  The dictionary \<open>frames\<close> is the list of its items in insertion order. The order in
  which \<open>list(all_cols)\<close> yields the elements of the set is the parameter \<open>order\<close>, a
  function of the labels put into the set; \<open>set_order\<close> says it lists each element once.
\<close>

definition set_order :: "(ustr list \<Rightarrow> ustr list) \<Rightarrow> bool" where
  "set_order order = (\<forall>xs. distinct (order xs) \<and> set (order xs) = set xs)"

definition unify_sheets ::
  "ucd \<Rightarrow> (ustr list \<Rightarrow> ustr list) \<Rightarrow> (ustr \<times> dataframe) list \<Rightarrow> py_error + dataframe" where
  "unify_sheets U order frames =
     (let frames_norm = map (\<lambda>(sh, df). (sh, normalize_headers U df)) frames;
          all_cols = order (concat (map (\<lambda>(sh, df). df_columns df) frames_norm))
      in case align_all all_cols frames_norm of
           Inl e \<Rightarrow> Inl e
         | Inr aligned \<Rightarrow> pd_concat aligned)"

text \<open>
  Where the rows of the sheets stand in the unified table: those of the \<open>i\<close>-th sheet
  start at \<open>row_offset frames i\<close>.
\<close>

definition row_offset :: "(ustr \<times> dataframe) list \<Rightarrow> nat \<Rightarrow> nat" where
  "row_offset frames i = sum_list (map (\<lambda>(sh, df). nrows df) (take i frames))"

section \<open>Simple typing\<close>

text \<open>The three types, written \<open>"int"\<close>, \<open>"float"\<close> and \<open>"string"\<close> in the program.\<close>

datatype dtype = T_int | T_float | T_string

text \<open>\<open>x % 1 == 0\<close>: the remainder of an infinity is \<open>NaN\<close>, which equals nothing.\<close>

fun whole :: "number \<Rightarrow> bool" where
  "whole (Finite q) = (q = of_int \<lfloor>q\<rfloor>)"
| "whole Infinity = False"

text \<open>
  \<open>pd.to_numeric(s, errors="coerce")\<close>. One cell is coerced so: a number is itself, null
  is \<open>NaN\<close>, and a text is what pandas parses it to, \<open>NaN\<close> when it cannot. The parser of
  pandas is the parameter \<open>parse\<close>; \<open>None\<close> stands for \<open>NaN\<close>. The numbers go into an array
  of floats, and an integer that is too large for a float raises \<open>OverflowError\<close>, which
  \<open>errors="coerce"\<close> does not catch: that is one of magnitude \<open>2^1024 - 2^970\<close> or more
  (a float is smaller).
\<close>

fun coerce :: "(ustr \<Rightarrow> number option) \<Rightarrow> cell \<Rightarrow> number option" where
  "coerce parse Null = None"
| "coerce parse (Num x) = Some x"
| "coerce parse (Text t) = parse t"

fun int_too_large :: "cell \<Rightarrow> bool" where
  "int_too_large (Num (Finite q)) = (2 ^ 1024 - 2 ^ 970 \<le> \<bar>q\<bar>)"
| "int_too_large v = False"

definition to_numeric ::
  "(ustr \<Rightarrow> number option) \<Rightarrow> cell list \<Rightarrow> py_error + number option list" where
  "to_numeric parse s =
     (if list_ex int_too_large s then Inl OverflowError else Inr (map (coerce parse) s))"

definition notna :: "cell \<Rightarrow> bool" where
  "notna v = (v \<noteq> Null)"

text \<open>
  The type of one \<open>Series\<close>, lines 109 to 118 of \<open>build_simple_dtypes\<close>:
  \<^verbatim>\<open>if s.dropna().empty:
      overrides[c] = "string"
      continue
  nums = pd.to_numeric(s, errors="coerce")
  mask = s.notna()
  all_numeric = nums[mask].notna().all()
  if all_numeric:
      overrides[c] = "int" if (nums[mask] % 1 == 0).all() else "float"
  else:
      overrides[c] = "string"\<close>
\<close>

definition series_dtype :: "(ustr \<Rightarrow> number option) \<Rightarrow> cell list \<Rightarrow> py_error + dtype" where
  "series_dtype parse s =
     (if filter notna s = [] then Inr T_string
      else
        (case to_numeric parse s of
           Inl e \<Rightarrow> Inl e
         | Inr nums \<Rightarrow>
             let mask = map notna s;
                 masked = map fst (filter snd (zip nums mask));
                 all_numeric = list_all (\<lambda>x. x \<noteq> None) masked
             in if all_numeric then
                  (if list_all (\<lambda>x. case x of Some q \<Rightarrow> whole q | None \<Rightarrow> False) masked
                   then Inr T_int else Inr T_float)
                else Inr T_string))"

text \<open>
  The loop of \<open>build_simple_dtypes\<close> over \<open>df.columns\<close>; \<open>overrides\<close> is the dictionary,
  in insertion order. Under a label that the frame repeats \<open>df[c]\<close> is a frame:
  \<open>dropna\<close> then drops every row with a null, and \<open>pd.to_numeric\<close> raises \<open>TypeError\<close>
  when a row is left.
\<close>

fun build_loop ::
  "(ustr \<Rightarrow> number option) \<Rightarrow> dataframe \<Rightarrow> ustr list \<Rightarrow> (ustr \<times> dtype) list
     \<Rightarrow> py_error + (ustr \<times> dtype) list" where
  "build_loop parse df [] overrides = Inr overrides"
| "build_loop parse df (c # cs) overrides =
     (if c = cp ''_sheet'' then build_loop parse df cs (AList.update c T_string overrides)
      else
        (case df_getitem df c of
           [s] \<Rightarrow>
             (case series_dtype parse s of
                Inl e \<Rightarrow> Inl e
              | Inr t \<Rightarrow> build_loop parse df cs (AList.update c t overrides))
         | ss \<Rightarrow>
             if filter (\<lambda>r. list_all (\<lambda>s. notna (s ! r)) ss) [0..<nrows df] = []
             then build_loop parse df cs (AList.update c T_string overrides)
             else Inl TypeError))"

definition build_simple_dtypes ::
  "(ustr \<Rightarrow> number option) \<Rightarrow> dataframe \<Rightarrow> py_error + (ustr \<times> dtype) list" where
  "build_simple_dtypes parse df = build_loop parse df (df_columns df) []"

text \<open>
  The rule of the types, as the specification words it, for the cells \<open>s\<close> of one
  column other than \<open>_sheet\<close>.
\<close>

definition series_rule :: "(ustr \<Rightarrow> number option) \<Rightarrow> cell list \<Rightarrow> dtype" where
  "series_rule parse s =
     (if \<forall>v\<in>set s. v = Null then T_string
      else if \<exists>v\<in>set s. v \<noteq> Null \<and> coerce parse v = None then T_string
      else if \<forall>v\<in>set s. v \<noteq> Null \<longrightarrow> (\<exists>q. coerce parse v = Some q \<and> whole q) then T_int
      else T_float)"

text \<open>
  The type that the rule gives the label \<open>c\<close> of a frame whose labels are distinct.
\<close>

definition column_dtype :: "(ustr \<Rightarrow> number option) \<Rightarrow> dataframe \<Rightarrow> ustr \<Rightarrow> dtype" where
  "column_dtype parse df c =
     (if c = cp ''_sheet'' then T_string else series_rule parse (hd (df_getitem df c)))"

text \<open>
  Splitting a text at its separators: \<open>joined ws rs\<close> is the text made of the words
  \<open>ws\<close> with the runs \<open>rs\<close> between them, and \<open>split_at P ws rs\<close> says that the words
  hold no character of the class \<open>P\<close>, that the runs are not empty and hold nothing
  else, that there is one run between any two words, and that only the first and the
  last word can be empty, so that every run is a maximal one.
\<close>

fun joined :: "ustr list \<Rightarrow> ustr list \<Rightarrow> ustr" where
  "joined (w # ws) (r # rs) = w @ r @ joined ws rs"
| "joined (w # ws) [] = w"
| "joined [] rs = []"

definition split_at :: "(nat \<Rightarrow> bool) \<Rightarrow> ustr list \<Rightarrow> ustr list \<Rightarrow> bool" where
  "split_at P ws rs =
     (length ws = length rs + 1
      \<and> (\<forall>w\<in>set ws. \<forall>c\<in>set w. \<not> P c)
      \<and> (\<forall>r\<in>set rs. r \<noteq> [] \<and> (\<forall>c\<in>set r. P c))
      \<and> (\<forall>i. 0 < i \<and> i < length rs \<longrightarrow> ws ! i \<noteq> []))"

text \<open>The separators of a name: the hyphen, whitespace and the underscore.\<close>

definition separator :: "ucd \<Rightarrow> nat \<Rightarrow> bool" where
  "separator U c = (c = HYPHEN \<or> isspace U c \<or> c = UNDERSCORE)"

section \<open>Sample data\<close>

text \<open>A workbook with one sheet, as the only file there is; and a table to type.\<close>

definition sample_sheet :: dataframe where
  "sample_sheet = \<lparr> nrows = 1, cols = [(cp ''ID'', [Num (Finite 1)])] \<rparr>"

definition sample_files :: files where
  "sample_files path =
     (if path = cp ''book.xlsx'' then Inr [(cp ''Hoja1'', sample_sheet)] else Inl FileNotFound)"

definition typed_sample :: dataframe where
  "typed_sample =
     \<lparr> nrows = 3,
       cols = [(cp ''n'', [Num (Finite 1), Num (Finite 2), Num (Finite 3)]),
               (cp ''x'', [Num (Finite 1), Num (Finite (5 / 2)), Num (Finite 3)]),
               (cp ''t'', [Num (Finite 1), Text (cp ''a''), Num (Finite 3)]),
               (cp ''e'', [Null, Null, Null]),
               (cp ''_sheet'', [Num (Finite 1), Num (Finite 2), Num (Finite 3)])] \<rparr>"

text \<open>
  A sheet whose distinct headers \<open>A\<close>, \<open>a\<close>, \<open>a_1\<close> get the names \<open>a\<close>, \<open>a_1\<close>, \<open>a_1\<close>,
  and the table that unifying this one sheet gives.
\<close>

definition collide_sheet :: dataframe where
  "collide_sheet =
     \<lparr> nrows = 1,
       cols = [(cp ''A'', [Num (Finite 1)]), (cp ''a'', [Num (Finite 2)]),
               (cp ''a_1'', [Num (Finite 3)])] \<rparr>"

definition collide_table :: dataframe where
  "collide_table =
     \<lparr> nrows = 1,
       cols = [(cp ''a'', [Num (Finite 1)]), (cp ''a_1'', [Num (Finite 2)]),
               (cp ''a_1'', [Num (Finite 3)]), (cp ''_sheet'', [Text (cp ''Hoja1'')])] \<rparr>"

text \<open>A header with capitals, an accent, a tab and several runs of separators.\<close>

definition messy_header :: ustr where
  "messy_header = cp ''  A'' @ [241] @ cp ''o-Nuevo '' @ [9] @ cp '' 2025__x ''"

section \<open>Properties of the library operations\<close>

lemma filter_sort_key_none:
  "\<forall>x\<in>set xs. \<not> P x \<Longrightarrow> filter P (sort_key f xs) = []"
  by (simp add: filter_empty_conv)

lemma filter_takeWhile_not: "filter P (takeWhile (\<lambda>x. \<not> P x) xs) = []"
  by (induction xs) auto

lemma filter_dropWhile_not: "filter P (dropWhile (\<lambda>x. \<not> P x) xs) = filter P xs"
  by (induction xs) auto

lemma filter_canonical_order:
  "filter (\<lambda>c. ccc U c = 0) (canonical_order U s) = filter (\<lambda>c. ccc U c = 0) s"
proof (induction U s rule: canonical_order.induct)
  case (1 U)
  show ?case by simp
next
  case (2 U c cs)
  show ?case
  proof (cases "ccc U c = 0")
    case True
    with 2 show ?thesis by simp
  next
    case False
    have run: "\<forall>x\<in>set (c # takeWhile (\<lambda>d. ccc U d \<noteq> 0) cs). \<not> ccc U x = 0"
      using False by (auto dest: set_takeWhileD)
    have "filter (\<lambda>c. ccc U c = 0) (sort_key (ccc U) (c # takeWhile (\<lambda>d. ccc U d \<noteq> 0) cs)) = []"
      using run by (rule filter_sort_key_none)
    moreover have "filter (\<lambda>c. ccc U c = 0) (dropWhile (\<lambda>d. ccc U d \<noteq> 0) cs)
        = filter (\<lambda>c. ccc U c = 0) cs"
      using filter_dropWhile_not [of "\<lambda>c. ccc U c = 0" cs] by simp
    ultimately show ?thesis
      using False 2 by simp
  qed
qed

lemma remove_accents_decomp:
  "remove_accents U s = filter (\<lambda>c. ccc U c = 0) (concat (map (decomp U) s))"
  by (simp add: remove_accents_def nfkd_def filter_canonical_order)

lemma set_sub_runs: "set (sub_runs P r s) \<subseteq> set r \<union> {c \<in> set s. \<not> P c}"
proof (induction P r s rule: sub_runs.induct)
  case (1 P r)
  show ?case by simp
next
  case (2 P r c cs)
  show ?case
  proof (cases "P c")
    case True
    have "set (dropWhile P cs) \<subseteq> set cs" by (rule set_dropWhileD [THEN subsetI])
    with True 2 show ?thesis by auto
  next
    case False
    with 2 show ?thesis by auto
  qed
qed

lemma sub_runs_none: "\<forall>c\<in>set s. \<not> P c \<Longrightarrow> sub_runs P r s = s"
  by (induction s) auto

lemma no_double_Cons: "no_double u (a # s) = ((a = u \<longrightarrow> s = [] \<or> hd s \<noteq> u) \<and> no_double u s)"
  by (cases s) auto

lemma hd_dropWhile_eq: "dropWhile (\<lambda>c. c = u) s = [] \<or> hd (dropWhile (\<lambda>c. c = u) s) \<noteq> u"
  using hd_dropWhile [of "\<lambda>c. c = u" s] by auto

lemma sub_runs_eq_Nil: "sub_runs P r s = [] \<Longrightarrow> r \<noteq> [] \<Longrightarrow> s = []"
  by (cases s) (auto split: if_splits)

lemma hd_sub_runs_not: "s \<noteq> [] \<Longrightarrow> \<not> P (hd s) \<Longrightarrow> hd (sub_runs P r s) = hd s"
  by (cases s) auto

lemma no_double_collapse: "no_double u (sub_runs (\<lambda>c. c = u) [u] s)"
proof (induction "\<lambda>c. c = u" "[u]" s rule: sub_runs.induct)
  case 1
  show ?case by simp
next
  case (2 c cs)
  show ?case
  proof (cases "c = u")
    case True
    define d where "d = dropWhile (\<lambda>c. c = u) cs"
    have "d = [] \<or> hd d \<noteq> u" unfolding d_def by (rule hd_dropWhile_eq)
    then have "sub_runs (\<lambda>c. c = u) [u] d = [] \<or> hd (sub_runs (\<lambda>c. c = u) [u] d) \<noteq> u"
      by (cases d) auto
    moreover have "no_double u (sub_runs (\<lambda>c. c = u) [u] d)"
      unfolding d_def using True 2 by simp
    ultimately have "no_double u (u # sub_runs (\<lambda>c. c = u) [u] d)"
      by (simp add: no_double_Cons)
    then show ?thesis using True by (simp add: d_def)
  next
    case False
    with 2 show ?thesis by (simp add: no_double_Cons)
  qed
qed

lemma collapse_no_double: "no_double u s \<Longrightarrow> sub_runs (\<lambda>c. c = u) [u] s = s"
proof (induction s)
  case Nil
  show ?case by simp
next
  case (Cons a s)
  then have nd: "no_double u s" and h: "a = u \<longrightarrow> s = [] \<or> hd s \<noteq> u"
    by (simp_all add: no_double_Cons)
  show ?case
  proof (cases "a = u")
    case True
    with h have "dropWhile (\<lambda>c. c = u) s = s" by (cases s) auto
    with True Cons.IH nd show ?thesis by simp
  next
    case False
    with Cons.IH nd show ?thesis by simp
  qed
qed

lemma set_lower_from:
  "set (lower_from U pre s) \<subseteq> (\<Union>c\<in>set s - {931}. set (tolower U c)) \<union> {962, 963}"
proof (induction s arbitrary: pre)
  case Nil
  show ?case by simp
next
  case (Cons c s)
  have "handle_capital_sigma U pre s = 962 \<or> handle_capital_sigma U pre s = 963"
    by (simp add: handle_capital_sigma_def split: list.splits)
  with Cons [of "c # pre"] show ?case by auto
qed

lemma lower_from_fixed:
  "\<forall>c\<in>set s. c \<noteq> 931 \<and> tolower U c = [c] \<Longrightarrow> lower_from U pre s = s"
  by (induction s arbitrary: pre) auto

lemma set_strip_chars: "set (strip_chars P s) \<subseteq> set s"
proof -
  have "set (dropWhile P (rev (dropWhile P s))) \<subseteq> set (rev (dropWhile P s))"
    by (rule set_dropWhileD [THEN subsetI])
  moreover have "set (dropWhile P s) \<subseteq> set s"
    by (rule set_dropWhileD [THEN subsetI])
  ultimately show ?thesis by (auto simp: strip_chars_def)
qed

lemma strip_chars_none: "\<forall>c\<in>set s. \<not> P c \<Longrightarrow> strip_chars P s = s"
proof -
  assume a: "\<forall>c\<in>set s. \<not> P c"
  then have "dropWhile P s = s" by (cases s) auto
  moreover from a have "dropWhile P (rev s) = rev s" by (cases "rev s") (auto simp: )
  ultimately show ?thesis by (simp add: strip_chars_def)
qed

lemma strip_chars_pad:
  assumes "\<forall>c\<in>set a. P c" "\<forall>c\<in>set b. P c"
  shows "strip_chars P (a @ s @ b) = strip_chars P s"
proof -
  have 1: "dropWhile P (a @ s @ b) = dropWhile P (s @ b)"
    using assms(1) by (simp add: dropWhile_append)
  show ?thesis
  proof (cases "\<forall>c\<in>set s. P c")
    case True
    then have "dropWhile P (s @ b) = []" and "dropWhile P s = []"
      using assms(2) by auto
    then show ?thesis by (simp only: strip_chars_def 1)
  next
    case False
    then have 2: "dropWhile P (s @ b) = dropWhile P s @ b"
      by (auto simp: dropWhile_append)
    have "dropWhile P (rev (dropWhile P s @ b)) = dropWhile P (rev (dropWhile P s))"
      using assms(2) by (simp add: dropWhile_append)
    then show ?thesis by (simp only: strip_chars_def 1 2)
  qed
qed

text \<open>Runs and words.\<close>

lemma sub_runs_append_not:
  "\<forall>c\<in>set x. \<not> P c \<Longrightarrow> sub_runs P r (x @ t) = x @ sub_runs P r t"
  by (induction x) auto

lemma sub_runs_run_then:
  assumes "run \<noteq> []" "\<forall>c\<in>set run. P c" "t = [] \<or> \<not> P (hd t)"
  shows "sub_runs P r (run @ t) = r @ sub_runs P r t"
proof -
  obtain c cs where run: "run = c # cs" using assms(1) by (cases run) auto
  have "dropWhile P (cs @ t) = t"
    using assms(2,3) unfolding run by (cases t) (auto simp: dropWhile_append)
  then show ?thesis using assms(2) by (simp add: run)
qed

lemma split_atD:
  assumes "split_at P ws rs"
  shows "length ws = length rs + 1"
    and "\<And>w c. w \<in> set ws \<Longrightarrow> c \<in> set w \<Longrightarrow> \<not> P c"
    and "\<And>r. r \<in> set rs \<Longrightarrow> r \<noteq> [] \<and> (\<forall>c\<in>set r. P c)"
    and "\<And>i. 0 < i \<Longrightarrow> i < length rs \<Longrightarrow> ws ! i \<noteq> []"
  using assms unfolding split_at_def by blast+

lemma split_atI:
  assumes "length ws = length rs + 1"
    and "\<And>w c. w \<in> set ws \<Longrightarrow> c \<in> set w \<Longrightarrow> \<not> P c"
    and "\<And>r. r \<in> set rs \<Longrightarrow> r \<noteq> [] \<and> (\<forall>c\<in>set r. P c)"
    and "\<And>i. 0 < i \<Longrightarrow> i < length rs \<Longrightarrow> ws ! i \<noteq> []"
  shows "split_at P ws rs"
  using assms unfolding split_at_def by blast

lemma split_at_Cons:
  assumes "split_at P (w # ws) (r # rs)"
  shows "\<forall>c\<in>set w. \<not> P c" "r \<noteq> []" "\<forall>c\<in>set r. P c" "split_at P ws rs"
    "rs \<noteq> [] \<longrightarrow> hd ws \<noteq> []" "ws \<noteq> []"
proof -
  note d = split_atD [OF assms]
  from d(1) have len: "length ws = length rs + 1" by simp
  show "\<forall>c\<in>set w. \<not> P c" using d(2) [of w] by simp
  show "r \<noteq> []" "\<forall>c\<in>set r. P c" using d(3) [of r] by simp_all
  show ne: "ws \<noteq> []" using len by auto
  have in': "ws ! i \<noteq> []" if i: "i < length rs" for i
    using d(4) [of "Suc i"] i by simp
  show "split_at P ws rs"
  proof (rule split_atI)
    show "length ws = length rs + 1" by (rule len)
    show "\<not> P c" if "w' \<in> set ws" "c \<in> set w'" for w' c
      using d(2) [of w' c] that by simp
    show "r' \<noteq> [] \<and> (\<forall>c\<in>set r'. P c)" if "r' \<in> set rs" for r'
      using d(3) [of r'] that by simp
    show "ws ! i \<noteq> []" if "0 < i" "i < length rs" for i
      using in' that by blast
  qed
  show "rs \<noteq> [] \<longrightarrow> hd ws \<noteq> []"
  proof
    assume "rs \<noteq> []"
    then have "0 < length rs" by simp
    then have "ws ! 0 \<noteq> []" by (rule in')
    with ne show "hd ws \<noteq> []" by (simp add: hd_conv_nth)
  qed
qed

lemma split_at_Nil:
  assumes "split_at P ws []"
  shows "\<exists>w. ws = [w] \<and> (\<forall>c\<in>set w. \<not> P c)"
proof -
  note d = split_atD [OF assms]
  from d(1) obtain w where ws: "ws = [w]" by (cases ws) auto
  with d(2) [of w] show ?thesis by simp
qed

lemma split_at_ne: "split_at P ws rs \<Longrightarrow> \<exists>w ws'. ws = w # ws'"
  using split_atD(1) [of P ws rs] by (cases ws) auto

lemma joined_head:
  assumes "split_at P ws rs" "rs \<noteq> [] \<longrightarrow> hd ws \<noteq> []"
  shows "joined ws rs = [] \<or> \<not> P (hd (joined ws rs))"
proof (cases rs)
  case Nil
  with assms(1) obtain w where "ws = [w]" "\<forall>c\<in>set w. \<not> P c"
    using split_at_Nil by blast
  with Nil show ?thesis by (cases w) auto
next
  case (Cons r rs')
  from assms(1) obtain w ws' where ws: "ws = w # ws'"
    using split_at_ne by blast
  from assms(2) Cons ws have "w \<noteq> []" by simp
  then obtain c cs where w: "w = c # cs" by (cases w) auto
  have "\<not> P c" using split_atD(2) [OF assms(1), of w c] by (simp add: ws w)
  then show ?thesis by (simp add: Cons ws w)
qed

lemma sub_runs_joined:
  "split_at P ws rs \<Longrightarrow> sub_runs P [u] (joined ws rs) = joined ws (map (\<lambda>r. [u]) rs)"
proof (induction rs arbitrary: ws)
  case Nil
  then obtain w where "ws = [w]" "\<forall>c\<in>set w. \<not> P c"
    using split_at_Nil by blast
  then show ?case by (simp add: sub_runs_none)
next
  case (Cons r rs)
  from Cons.prems obtain w ws' where ws: "ws = w # ws'"
    using split_at_ne by blast
  note p = split_at_Cons [OF Cons.prems [unfolded ws]]
  have hd: "joined ws' rs = [] \<or> \<not> P (hd (joined ws' rs))"
    using p(4,5) by (rule joined_head)
  have "sub_runs P [u] (joined ws (r # rs)) = w @ sub_runs P [u] (r @ joined ws' rs)"
    using p(1) by (simp add: ws sub_runs_append_not)
  also have "sub_runs P [u] (r @ joined ws' rs) = [u] @ sub_runs P [u] (joined ws' rs)"
    using p(2,3) hd by (rule sub_runs_run_then)
  also have "sub_runs P [u] (joined ws' rs) = joined ws' (map (\<lambda>r. [u]) rs)"
    using p(4) by (rule Cons.IH)
  finally show ?case by (simp add: ws)
qed

lemma length_dropWhile_less:
  "xs \<noteq> [] \<Longrightarrow> P (hd xs) \<Longrightarrow> length (dropWhile P xs) < length xs"
  by (cases xs) (auto simp: length_dropWhile_le less_Suc_eq_le)

lemma split_exists: "\<exists>ws rs. split_at P ws rs \<and> t = joined ws rs"
proof (induction t rule: length_induct)
  case (1 t)
  define w0 where "w0 = takeWhile (\<lambda>c. \<not> P c) t"
  define rest where "rest = dropWhile (\<lambda>c. \<not> P c) t"
  have t: "t = w0 @ rest" by (simp add: w0_def rest_def)
  have w: "\<forall>c\<in>set w0. \<not> P c" unfolding w0_def by (auto dest: set_takeWhileD)
  show ?case
  proof (cases "rest = []")
    case True
    with t w have "\<forall>c\<in>set t. \<not> P c" by simp
    then have "split_at P [t] []" by (intro split_atI) auto
    moreover have "t = joined [t] []" by simp
    ultimately show ?thesis by blast
  next
    case False
    then have Ph: "P (hd rest)"
      unfolding rest_def using hd_dropWhile [of "\<lambda>c. \<not> P c" t] by simp
    define run where "run = takeWhile P rest"
    define t' where "t' = dropWhile P rest"
    have rest: "rest = run @ t'" by (simp add: run_def t'_def)
    have run_ne: "run \<noteq> []" unfolding run_def using False Ph by (cases rest) auto
    have run_P: "\<forall>c\<in>set run. P c" unfolding run_def by (auto dest: set_takeWhileD)
    have "length t' < length t" using t rest run_ne by simp
    with 1 obtain ws' rs' where s': "split_at P ws' rs'" and j': "t' = joined ws' rs'"
      by blast
    note d = split_atD [OF s']
    have t'hd: "t' = [] \<or> \<not> P (hd t')"
      unfolding t'_def using hd_dropWhile [of P rest] by auto
    from s' obtain w' ws'' where ws': "ws' = w' # ws''"
      using split_at_ne by blast
    have first: "w' \<noteq> []" if ne: "rs' \<noteq> []"
    proof
      assume e: "w' = []"
      from ne obtain r rs'' where rs': "rs' = r # rs''" by (cases rs') auto
      from d(3) [of r] have r: "r \<noteq> []" "\<forall>c\<in>set r. P c" by (simp_all add: rs')
      from j' have "t' = r @ joined ws'' rs''"
        by (simp only: ws' rs' e joined.simps append_Nil)
      with r have "t' \<noteq> [] \<and> P (hd t')" by (cases r) auto
      with t'hd show False by blast
    qed
    have "split_at P (w0 # ws') (run # rs')"
    proof (rule split_atI)
      show "length (w0 # ws') = length (run # rs') + 1"
        using d(1) by simp
    next
      fix x c assume x: "x \<in> set (w0 # ws')" and c: "c \<in> set x"
      show "\<not> P c"
      proof (cases "x = w0")
        case True
        with c w show ?thesis by blast
      next
        case False
        with x have "x \<in> set ws'" by simp
        then show ?thesis using c by (rule d(2))
      qed
    next
      fix r assume r: "r \<in> set (run # rs')"
      show "r \<noteq> [] \<and> (\<forall>c\<in>set r. P c)"
      proof (cases "r = run")
        case True
        with run_ne run_P show ?thesis by blast
      next
        case False
        with r have "r \<in> set rs'" by simp
        then show ?thesis by (rule d(3))
      qed
    next
      fix i :: nat assume i: "0 < i" "i < length (run # rs')"
      then obtain k where k: "i = Suc k" by (cases i) auto
      show "(w0 # ws') ! i \<noteq> []"
      proof (cases k)
        case 0
        with i k have "rs' \<noteq> []" by auto
        then have "w' \<noteq> []" by (rule first)
        with 0 k ws' show ?thesis by simp
      next
        case (Suc m)
        with i k have "0 < k" "k < length rs'" by simp_all
        then have "ws' ! k \<noteq> []" by (rule d(4))
        with k show ?thesis by simp
      qed
    qed
    moreover have "t = joined (w0 # ws') (run # rs')"
      using t rest j' by simp
    ultimately show ?thesis by blast
  qed
qed

lemma collapse_compose_aux:
  "sub_runs (\<lambda>c. c = u) [u] (sub_runs P [u] t) = sub_runs (\<lambda>c. P c \<or> c = u) [u] t
   \<and> sub_runs (\<lambda>c. c = u) [u] (dropWhile (\<lambda>c. c = u) (sub_runs P [u] t))
       = sub_runs (\<lambda>c. P c \<or> c = u) [u] (dropWhile (\<lambda>c. P c \<or> c = u) t)"
proof (induction t rule: length_induct)
  case (1 t)
  let ?C = "sub_runs (\<lambda>c. c = u) [u]"
  let ?S = "sub_runs P [u]"
  let ?Q = "\<lambda>c. P c \<or> c = u"
  let ?T = "sub_runs ?Q [u]"
  show ?case
  proof (cases t)
    case Nil
    then show ?thesis by simp
  next
    case (Cons d ds)
    have ih1: "?C (?S x) = ?T x" if "length x < length t" for x
      using 1 that by blast
    have ih2: "?C (dropWhile (\<lambda>c. c = u) (?S x)) = ?T (dropWhile ?Q x)"
      if "length x < length t" for x
      using 1 that by blast
    show ?thesis
    proof (cases "?Q d")
      case False
      then have nP: "\<not> P d" and nu: "d \<noteq> u" by auto
      have main: "?C (?S t) = ?T t"
        using nP nu ih1 [of ds] by (simp add: Cons)
      have "dropWhile (\<lambda>c. c = u) (?S t) = ?S t" using nP nu by (simp add: Cons)
      moreover have "dropWhile ?Q t = t" using False by (simp add: Cons)
      ultimately show ?thesis using main by simp
    next
      case True
      define x where "x = (if P d then dropWhile P ds else ds)"
      have lx: "length x < length t"
        by (simp add: x_def Cons length_dropWhile_le less_Suc_eq_le)
      have S: "?S t = u # ?S x"
        using True by (auto simp: Cons x_def)
      have dq: "dropWhile ?Q x = dropWhile ?Q ds"
      proof (cases "P d")
        case True
        have "dropWhile ?Q (dropWhile P ys) = dropWhile ?Q ys" for ys
          by (induction ys) auto
        with True show ?thesis by (simp add: x_def)
      next
        case False
        then show ?thesis by (simp add: x_def)
      qed
      have d1: "dropWhile (\<lambda>c. c = u) (?S t) = dropWhile (\<lambda>c. c = u) (?S x)"
        unfolding S by simp
      have d2: "dropWhile ?Q t = dropWhile ?Q ds" using True by (simp add: Cons)
      have B: "?C (dropWhile (\<lambda>c. c = u) (?S t)) = ?T (dropWhile ?Q t)"
        unfolding d1 d2 using ih2 [OF lx] dq by simp
      have "?C (?S t) = u # ?C (dropWhile (\<lambda>c. c = u) (?S x))"
        by (simp add: S)
      also have "\<dots> = u # ?T (dropWhile ?Q ds)"
        using ih2 [OF lx] by (simp add: dq)
      also have "\<dots> = ?T t" using True by (simp add: Cons)
      finally show ?thesis using B by simp
    qed
  qed
qed

lemma collapse_compose:
  "sub_runs (\<lambda>c. c = u) [u] (sub_runs P [u] t) = sub_runs (\<lambda>c. P c \<or> c = u) [u] t"
  using collapse_compose_aux [of u P t] by blast

section \<open>Properties of the name utilities\<close>

lemma ascii_agreeD:
  "ascii_agree U \<Longrightarrow> c < 128 \<Longrightarrow>
     decomp U c = [c] \<and> ccc U c = 0 \<and> isalnum U c = ascii_alnum c
     \<and> isspace U c = ascii_space c \<and> tolower U c = [ascii_lower c]"
  by (simp add: ascii_agree_def)

lemma ucd_ok_ascii: "ucd_ok U \<Longrightarrow> ascii_agree U"
  by (simp add: ucd_ok_def)

lemma name_char_underscore: "ascii_agree U \<Longrightarrow> name_char U UNDERSCORE"
  using ascii_agreeD [of U 95]
  by (simp add: name_char_def nfkd_stable_def word_def ascii_space_def ascii_lower_def)

lemma name_char_ascii_lower:
  "ascii_agree U \<Longrightarrow> 97 \<le> c \<Longrightarrow> c \<le> 122 \<Longrightarrow> name_char U c"
  using ascii_agreeD [of U c]
  by (simp add: name_char_def nfkd_stable_def word_def ascii_space_def ascii_lower_def ascii_alnum_def)

lemma name_char_ascii_digit:
  "ascii_agree U \<Longrightarrow> 48 \<le> c \<Longrightarrow> c \<le> 57 \<Longrightarrow> name_char U c"
  using ascii_agreeD [of U c]
  by (simp add: name_char_def nfkd_stable_def word_def ascii_space_def ascii_lower_def ascii_alnum_def)

lemma stable_space: "ascii_agree U \<Longrightarrow> nfkd_stable U SPACE"
  using ascii_agreeD [of U 32] by (simp add: nfkd_stable_def)

lemma columna_name_chars: "ascii_agree U \<Longrightarrow> \<forall>c\<in>set (cp ''columna''). name_char U c"
  by (simp add: cp_def name_char_ascii_lower)

lemma stable_remove_accents:
  assumes "ucd_ok U"
  shows "\<forall>c\<in>set (remove_accents U s). nfkd_stable U c"
  using assms by (auto simp: remove_accents_decomp ucd_ok_def nfkd_stable_def)

lemma to_snake_case_name_chars:
  assumes ok: "ucd_ok U" and st: "\<forall>c\<in>set s. nfkd_stable U c"
  shows "\<forall>c\<in>set (to_snake_case U s). name_char U c"
proof -
  define s1 where "s1 = map (\<lambda>c. if word U c \<or> isspace U c \<or> c = HYPHEN then c else SPACE) s"
  define t where "t = str_lower U (strip U s1)"
  define s2 where "s2 = sub_runs (\<lambda>c. c = HYPHEN \<or> isspace U c) [UNDERSCORE] t"
  have ag: "ascii_agree U" using ok by (rule ucd_ok_ascii)
  have sp: "isspace U SPACE" using ascii_agreeD [OF ag, of 32] by (simp add: ascii_space_def)
  have s1: "\<forall>c\<in>set s1. nfkd_stable U c \<and> (word U c \<or> isspace U c \<or> c = HYPHEN)"
    using st stable_space [OF ag] sp by (auto simp: s1_def)
  have "set (strip U s1) \<subseteq> set s1"
    unfolding strip_def by (rule set_strip_chars)
  with s1 have s1': "\<forall>c\<in>set (strip U s1). nfkd_stable U c \<and> (word U c \<or> isspace U c \<or> c = HYPHEN)"
    by blast
  have t: "\<forall>d\<in>set t. name_char U d \<or> isspace U d \<or> d = HYPHEN"
  proof
    fix d assume "d \<in> set t"
    then have "d \<in> (\<Union>c\<in>set (strip U s1) - {931}. set (tolower U c)) \<union> {962, 963}"
      using set_lower_from [of U "[]" "strip U s1"] by (auto simp: t_def str_lower_def)
    then consider c where "c \<in> set (strip U s1)" "c \<noteq> 931" "d \<in> set (tolower U c)"
      | "d = 962" | "d = 963" by auto
    then show "name_char U d \<or> isspace U d \<or> d = HYPHEN"
    proof cases
      case 1
      with s1' ok show ?thesis unfolding ucd_ok_def by blast
    next
      case 2
      with ok show ?thesis by (simp add: ucd_ok_def)
    next
      case 3
      with ok show ?thesis by (simp add: ucd_ok_def)
    qed
  qed
  have "set s2 \<subseteq> set [UNDERSCORE] \<union> {c \<in> set t. \<not> (c = HYPHEN \<or> isspace U c)}"
    unfolding s2_def by (rule set_sub_runs)
  with t name_char_underscore [OF ag] have s2: "\<forall>c\<in>set s2. name_char U c"
    by auto
  have "set (sub_runs (\<lambda>c. c = UNDERSCORE) [UNDERSCORE] s2)
          \<subseteq> set [UNDERSCORE] \<union> {c \<in> set s2. \<not> c = UNDERSCORE}"
    by (rule set_sub_runs)
  with s2 name_char_underscore [OF ag]
  have "\<forall>c\<in>set (sub_runs (\<lambda>c. c = UNDERSCORE) [UNDERSCORE] s2). name_char U c"
    by auto
  then show ?thesis
    by (simp add: to_snake_case_def s2_def t_def s1_def Let_def)
qed

lemma no_double_to_snake_case: "no_double UNDERSCORE (to_snake_case U s)"
  by (simp add: to_snake_case_def Let_def no_double_collapse)

lemma normalize_name_chars:
  assumes "ucd_ok U"
  shows "\<forall>c\<in>set (normalize_name U s). name_char U c"
  using to_snake_case_name_chars [OF assms stable_remove_accents [OF assms]]
    columna_name_chars [OF ucd_ok_ascii [OF assms]]
  by (simp add: normalize_name_def Let_def)

lemma no_double_columna: "no_double UNDERSCORE (cp ''columna'')"
  by (simp add: cp_def)

lemma normalize_no_double: "no_double UNDERSCORE (normalize_name U s)"
  by (simp add: normalize_name_def Let_def no_double_to_snake_case no_double_columna)

lemma normalize_nonempty: "normalize_name U s \<noteq> []"
  by (simp add: normalize_name_def Let_def cp_def)

lemma concat_map_singleton: "\<forall>c\<in>set y. f c = [c] \<Longrightarrow> concat (map f y) = y"
  by (induction y) auto

lemma name_fixed:
  assumes nc: "\<forall>c\<in>set y. name_char U c" and nd: "no_double UNDERSCORE y"
  shows "to_snake_case U (remove_accents U (strip U y)) = y"
proof -
  have 1: "strip U y = y"
    unfolding strip_def using nc by (intro strip_chars_none) (simp add: name_char_def)
  have "concat (map (decomp U) y) = y"
    using nc by (intro concat_map_singleton) (simp add: name_char_def nfkd_stable_def)
  moreover have "filter (\<lambda>c. ccc U c = 0) y = y"
    using nc by (simp add: name_char_def nfkd_stable_def)
  ultimately have 2: "remove_accents U y = y"
    by (simp add: remove_accents_decomp)
  have 3: "map (\<lambda>c. if word U c \<or> isspace U c \<or> c = HYPHEN then c else SPACE) y = y"
    using nc by (simp add: name_char_def map_idI)
  have 4: "str_lower U y = y"
    unfolding str_lower_def using nc by (intro lower_from_fixed) (simp add: name_char_def)
  have 5: "sub_runs (\<lambda>c. c = HYPHEN \<or> isspace U c) [UNDERSCORE] y = y"
    using nc by (intro sub_runs_none) (simp add: name_char_def)
  have 6: "sub_runs (\<lambda>c. c = UNDERSCORE) [UNDERSCORE] y = y"
    using nd by (rule collapse_no_double)
  show ?thesis
    by (simp add: to_snake_case_def Let_def 1 2 3 4 5 6)
qed

lemma normalize_fixed:
  assumes "\<forall>c\<in>set y. name_char U c" "no_double UNDERSCORE y" "y \<noteq> []"
  shows "normalize_name U y = y"
  using name_fixed [OF assms(1,2)] assms(3) by (simp add: normalize_name_def Let_def)

lemma normalize_idem:
  assumes "ucd_ok U"
  shows "normalize_name U (normalize_name U x) = normalize_name U x"
  using normalize_name_chars [OF assms] normalize_no_double normalize_nonempty
  by (rule normalize_fixed)

text \<open>The sample database is well formed.\<close>

lemma sample_ucd_ascii: "ascii_agree sample_ucd"
  by (auto simp: ascii_agree_def sample_ucd_def spanish_base_def sigma_def)

lemma sample_decomp_full: "d \<in> set (decomp sample_ucd c) \<Longrightarrow> decomp sample_ucd d = [d]"
  by (auto simp: sample_ucd_def spanish_base_def split: if_splits)

lemma sample_lower_ok:
  assumes "nfkd_stable sample_ucd c" "c \<noteq> 931" "d \<in> set (tolower sample_ucd c)"
    "word sample_ucd c \<or> isspace sample_ucd c \<or> c = HYPHEN"
  shows "name_char sample_ucd d \<or> isspace sample_ucd d \<or> d = HYPHEN"
  using assms
  by (auto simp: sample_ucd_def spanish_base_def nfkd_stable_def word_def name_char_def sigma_def
      ascii_alnum_def ascii_space_def ascii_lower_def split: if_splits)

lemma sample_sigmas: "name_char sample_ucd 962" "name_char sample_ucd 963"
  by (simp_all add: sample_ucd_def spanish_base_def nfkd_stable_def word_def name_char_def sigma_def
      ascii_alnum_def ascii_space_def ascii_lower_def)

lemma sample_scalar: "isalnum sample_ucd c \<Longrightarrow> scalar_value c"
  by (auto simp: sample_ucd_def spanish_base_def sigma_def ascii_alnum_def scalar_value_def
      split: if_splits)

lemma sample_ucd_ok: "ucd_ok sample_ucd"
  unfolding ucd_ok_def
  using sample_ucd_ascii sample_decomp_full sample_lower_ok sample_sigmas sample_scalar
  by blast

text \<open>The loop of \<open>normalize_headers\<close> follows the rule of the duplicates.\<close>

lemma seen_after_Nil: "seen_after [] = Map.empty"
  by (simp add: seen_after_def fun_eq_iff)

lemma seen_after_snoc:
  "(seen_after names)(n \<mapsto> (case seen_after names n of None \<Rightarrow> 0 | Some k \<Rightarrow> k + 1))
     = seen_after (names @ [n])"
  by (auto simp: seen_after_def fun_eq_iff)

lemma upt_0_Suc_map: "[0..<Suc n] = 0 # map Suc [0..<n]"
  by (simp add: upt_conv_Cons map_Suc_upt del: upt_Suc)

lemma normalize_headers_loop_spec:
  "normalize_headers_loop U cs (seen_after names) new_cols =
     new_cols @ map (\<lambda>j. suffixed (normalize_name U (cs ! j))
        (count_list (names @ map (normalize_name U) (take j cs)) (normalize_name U (cs ! j))))
        [0..<length cs]"
proof (induction cs arbitrary: names new_cols)
  case Nil
  show ?case by simp
next
  case (Cons c cs)
  let ?n = "normalize_name U c"
  have step: "normalize_headers_loop U (c # cs) (seen_after names) new_cols =
      normalize_headers_loop U cs (seen_after (names @ [?n]))
        (new_cols @ [suffixed ?n (count_list names ?n)])"
  proof (cases "seen_after names ?n")
    case None
    then have "count_list names ?n = 0" by (simp add: seen_after_def split: if_splits)
    with None seen_after_snoc [of names ?n] show ?thesis
      by (simp add: Let_def suffixed_def)
  next
    case (Some k)
    then have "count_list names ?n = k + 1" by (auto simp: seen_after_def split: if_splits)
    with Some seen_after_snoc [of names ?n] show ?thesis
      by (simp add: Let_def suffixed_def)
  qed
  show ?case
    unfolding step Cons.IH length_Cons upt_0_Suc_map
    by (simp add: comp_def)
qed

lemma normalize_columns_spec:
  "normalize_columns U hs =
     map (\<lambda>j. suffixed (normalize_name U (hs ! j))
        (count_list (map (normalize_name U) (take j hs)) (normalize_name U (hs ! j))))
        [0..<length hs]"
  using normalize_headers_loop_spec [of U hs "[]" "[]"]
  by (simp add: normalize_columns_def seen_after_Nil)

lemma ascii_tables:
  assumes "ascii_agree U" "c < 128"
  shows "decomp U c = [c]" "ccc U c = 0" "isalnum U c = ascii_alnum c"
    "isspace U c = ascii_space c" "tolower U c = [ascii_lower c]"
  using ascii_agreeD [OF assms] by simp_all

lemma total_example:
  assumes "ascii_agree U"
  shows "normalize_columns U [cp ''Total'', cp ''total'', cp ''Total'']
     = [cp ''total'', cp ''total_1'', cp ''total_2'']"
  using assms
  by (simp add: normalize_columns_def normalize_name_def to_snake_case_def
      remove_accents_decomp strip_def strip_chars_def str_lower_def cp_def word_def
      ascii_tables ascii_alnum_def ascii_space_def ascii_lower_def)

lemma strip_chars_ends:
  assumes "s \<noteq> []" "\<not> P (hd s)" "\<not> P (last s)"
  shows "strip_chars P s = s"
proof -
  from assms(1,2) have 1: "dropWhile P s = s" by (cases s) auto
  from assms(1,3) have "dropWhile P (rev s) = rev s"
    by (cases "rev s") (auto simp: hd_rev)
  with 1 show ?thesis by (simp add: strip_chars_def)
qed

lemma sub_runs_run:
  assumes "run \<noteq> []" "\<forall>c\<in>set run. P c" "\<forall>c\<in>set y. \<not> P c"
  shows "sub_runs P r (run @ y) = r @ y"
proof -
  obtain c cs where run: "run = c # cs" using assms(1) by (cases run) auto
  have "dropWhile P (cs @ y) = y"
    using assms(2,3) unfolding run by (cases y) (auto simp: dropWhile_append)
  then show ?thesis
    using assms(2,3) by (simp add: run sub_runs_none)
qed

lemma sample_name: "normalize_name sample_ucd (cp ''N'' @ [250] @ cp ''mero Cliente'') = cp ''numero_cliente''"
  by (simp add: normalize_name_def to_snake_case_def remove_accents_decomp strip_def
      strip_chars_def str_lower_def cp_def word_def sample_ucd_def spanish_base_def sigma_def
      ascii_alnum_def ascii_space_def ascii_lower_def)

lemma sample_total:
  "normalize_name sample_ucd (cp ''Total'') = cp ''total''"
  "normalize_name sample_ucd (cp ''total'') = cp ''total''"
  by (simp_all add: normalize_name_def to_snake_case_def remove_accents_decomp strip_def
      strip_chars_def str_lower_def cp_def word_def sample_ucd_def spanish_base_def sigma_def
      ascii_alnum_def ascii_space_def ascii_lower_def)

text \<open>A name from its words and runs of separators.\<close>

lemma separator_class:
  "(\<lambda>c. (c = HYPHEN \<or> isspace U c) \<or> c = UNDERSCORE) = separator U"
  by (auto simp: separator_def fun_eq_iff)

lemma to_snake_case_joined:
  assumes "split_at (separator U) ws rs"
    and "str_lower U (strip U (map (\<lambda>c. if word U c \<or> isspace U c \<or> c = HYPHEN then c else SPACE) x))
          = joined ws rs"
  shows "to_snake_case U x = joined ws (map (\<lambda>r. [UNDERSCORE]) rs)"
proof -
  have "to_snake_case U x = sub_runs (separator U) [UNDERSCORE] (joined ws rs)"
    unfolding to_snake_case_def Let_def assms(2)
    using collapse_compose [of UNDERSCORE "\<lambda>c. c = HYPHEN \<or> isspace U c" "joined ws rs"]
    by (simp only: separator_class)
  with assms(1) show ?thesis by (simp only: sub_runs_joined)
qed

lemma set_joined: "c \<in> set (joined ws rs) \<Longrightarrow> (\<exists>w\<in>set ws. c \<in> set w) \<or> (\<exists>r\<in>set rs. c \<in> set r)"
  by (induction ws rs rule: joined.induct) auto

lemma map_joined: "map f (joined ws rs) = joined (map (map f) ws) (map (map f) rs)"
  by (induction ws rs rule: joined.induct) auto

lemma joined_hd:
  "ws \<noteq> [] \<Longrightarrow> hd ws \<noteq> [] \<Longrightarrow> joined ws rs \<noteq> [] \<and> hd (joined ws rs) = hd (hd ws)"
  by (cases "(ws, rs)" rule: joined.cases) auto

lemma joined_last:
  "length ws = length rs + 1 \<Longrightarrow> last ws \<noteq> [] \<Longrightarrow>
     joined ws rs \<noteq> [] \<and> last (joined ws rs) = last (last ws)"
proof (induction rs arbitrary: ws)
  case Nil
  then obtain w where "ws = [w]" by (cases ws) auto
  with Nil show ?case by simp
next
  case (Cons r rs)
  from Cons.prems(1) obtain w ws' where ws: "ws = w # ws'" by (cases ws) auto
  with Cons.prems have l: "length ws' = length rs + 1" "ws' \<noteq> []" by auto
  with Cons.prems(2) ws have "last ws' \<noteq> []" by simp
  from Cons.IH [OF l(1) this] have "joined ws' rs \<noteq> []" "last (joined ws' rs) = last (last ws')"
    by simp_all
  with ws l(2) show ?case by simp
qed

lemma lower_from_map:
  "\<forall>c\<in>set s. c \<noteq> 931 \<and> tolower U c = [f c] \<Longrightarrow> lower_from U pre s = map f s"
  by (induction s arbitrary: pre) auto

lemma name_char_ascii_lower_id:
  assumes ag: "ascii_agree U" and nc: "name_char U c"
  shows "ascii_lower c = c"
proof (cases "65 \<le> c \<and> c \<le> 90")
  case True
  then have "c < 128" by simp
  from ascii_tables(5) [OF ag this] nc True show ?thesis
    by (simp add: name_char_def ascii_lower_def)
next
  case False
  then show ?thesis by (simp add: ascii_lower_def)
qed

lemma word_char_facts:
  assumes ag: "ascii_agree U"
    and c: "ascii_alnum c \<or> name_char U c" and ns: "\<not> separator U c"
  shows "decomp U c = [c]" "ccc U c = 0" "word U c" "c \<noteq> 931" "tolower U c = [ascii_lower c]"
    "\<not> separator U (ascii_lower c)"
proof -
  have "decomp U c = [c] \<and> ccc U c = 0 \<and> word U c \<and> c \<noteq> 931 \<and> tolower U c = [ascii_lower c]
      \<and> \<not> separator U (ascii_lower c)"
  proof (cases "name_char U c")
    case True
    with ag have "ascii_lower c = c" by (rule name_char_ascii_lower_id)
    with True ns show ?thesis by (simp add: name_char_def nfkd_stable_def)
  next
    case False
    with c have a: "ascii_alnum c" by simp
    then have lt: "c < 128" by (auto simp: ascii_alnum_def)
    from a have la: "ascii_alnum (ascii_lower c)" "ascii_lower c < 128"
      by (auto simp: ascii_alnum_def ascii_lower_def)
    from la have "\<not> ascii_space (ascii_lower c)" "ascii_lower c \<noteq> HYPHEN" "ascii_lower c \<noteq> UNDERSCORE"
      by (auto simp: ascii_alnum_def ascii_space_def)
    with ascii_tables(4) [OF ag la(2)] have "\<not> separator U (ascii_lower c)"
      by (simp add: separator_def)
    moreover from lt have "c \<noteq> 931" by simp
    ultimately show ?thesis
      using ascii_tables [OF ag lt] a by (simp add: word_def)
  qed
  then show "decomp U c = [c]" "ccc U c = 0" "word U c" "c \<noteq> 931" "tolower U c = [ascii_lower c]"
    "\<not> separator U (ascii_lower c)" by simp_all
qed

lemma run_char_facts:
  assumes ag: "ascii_agree U" and s: "separator U c" and lt: "c < 128"
  shows "decomp U c = [c]" "ccc U c = 0" "word U c \<or> isspace U c \<or> c = HYPHEN" "c \<noteq> 931"
    "tolower U c = [ascii_lower c]" "ascii_lower c = c"
proof -
  from s have w: "word U c \<or> isspace U c \<or> c = HYPHEN"
    by (auto simp: separator_def word_def)
  from s ascii_tables(4) [OF ag lt] have "c = HYPHEN \<or> ascii_space c \<or> c = UNDERSCORE"
    by (simp add: separator_def)
  then have l: "ascii_lower c = c" by (auto simp: ascii_lower_def ascii_space_def)
  from lt have "c \<noteq> 931" by simp
  with w l ascii_tables [OF ag lt]
  show "decomp U c = [c]" "ccc U c = 0" "word U c \<or> isspace U c \<or> c = HYPHEN" "c \<noteq> 931"
    "tolower U c = [ascii_lower c]" "ascii_lower c = c" by simp_all
qed

lemma normalize_name_joined:
  assumes ok: "ucd_ok U"
    and sp: "split_at (separator U) ws rs"
    and ends: "hd ws \<noteq> []" "last ws \<noteq> []"
    and wc: "\<forall>w\<in>set ws. \<forall>c\<in>set w. ascii_alnum c \<or> name_char U c"
    and rc: "\<forall>r\<in>set rs. \<forall>c\<in>set r. c < 128"
  shows "normalize_name U (joined ws rs)
     = joined (map (map ascii_lower) ws) (map (\<lambda>r. [UNDERSCORE]) rs)"
proof -
  have ag: "ascii_agree U" using ok by (rule ucd_ok_ascii)
  note d = split_atD [OF sp]
  let ?s = "joined ws rs"
  let ?ws = "map (map ascii_lower) ws"
  from d(1) have wsne: "ws \<noteq> []" by auto
  have W: "decomp U c = [c] \<and> ccc U c = 0 \<and> word U c \<and> c \<noteq> 931
      \<and> tolower U c = [ascii_lower c] \<and> \<not> separator U (ascii_lower c) \<and> \<not> isspace U c"
    if "w \<in> set ws" "c \<in> set w" for w c
  proof -
    from that wc have 1: "ascii_alnum c \<or> name_char U c" by blast
    from that have 2: "\<not> separator U c" by (rule d(2))
    from 2 have "\<not> isspace U c" by (simp add: separator_def)
    with word_char_facts [OF ag 1 2] show ?thesis by simp
  qed
  have R: "decomp U c = [c] \<and> ccc U c = 0 \<and> (word U c \<or> isspace U c \<or> c = HYPHEN) \<and> c \<noteq> 931
      \<and> tolower U c = [ascii_lower c] \<and> ascii_lower c = c"
    if "r \<in> set rs" "c \<in> set r" for r c
  proof -
    from that d(3) [of r] have 1: "separator U c" by blast
    from that rc have 2: "c < 128" by blast
    from run_char_facts [OF ag 1 2] show ?thesis by simp
  qed
  have A: "decomp U c = [c] \<and> ccc U c = 0 \<and> (word U c \<or> isspace U c \<or> c = HYPHEN) \<and> c \<noteq> 931
      \<and> tolower U c = [ascii_lower c]" if "c \<in> set ?s" for c
    using set_joined [OF that] W R by blast
  from joined_hd [OF wsne ends(1)] have ne: "?s \<noteq> []" and h: "hd ?s = hd (hd ws)" by simp_all
  from joined_last [OF d(1) ends(2)] have l: "last ?s = last (last ws)" by simp
  have "hd (hd ws) \<in> set (hd ws)" "hd ws \<in> set ws" using ends(1) wsne by simp_all
  then have nh: "\<not> isspace U (hd ?s)" unfolding h using W by blast
  have "last (last ws) \<in> set (last ws)" "last ws \<in> set ws" using ends(2) wsne by simp_all
  then have nl: "\<not> isspace U (last ?s)" unfolding l using W by blast
  have 1: "strip U ?s = ?s"
    unfolding strip_def using ne nh nl by (rule strip_chars_ends)
  have "concat (map (decomp U) ?s) = ?s"
    using A by (intro concat_map_singleton) simp
  moreover have "filter (\<lambda>c. ccc U c = 0) ?s = ?s"
    using A by (intro filter_True) simp
  ultimately have 2: "remove_accents U ?s = ?s"
    by (simp only: remove_accents_decomp)
  have 3: "map (\<lambda>c. if word U c \<or> isspace U c \<or> c = HYPHEN then c else SPACE) ?s = ?s"
    using A by (intro map_idI) simp
  have "map (map ascii_lower) rs = rs"
    using R by (intro map_idI) simp
  moreover have "str_lower U ?s = map ascii_lower ?s"
    unfolding str_lower_def using A by (intro lower_from_map) simp
  ultimately have 4: "str_lower U ?s = joined ?ws rs"
    by (simp add: map_joined)
  have 5: "split_at (separator U) ?ws rs"
  proof (rule split_atI)
    show "length ?ws = length rs + 1" using d(1) by simp
    show "\<not> separator U c" if "w \<in> set ?ws" "c \<in> set w" for w c
      using that W by auto
    show "r \<noteq> [] \<and> (\<forall>c\<in>set r. separator U c)" if "r \<in> set rs" for r
      using that by (rule d(3))
    show "?ws ! i \<noteq> []" if "0 < i" "i < length rs" for i
    proof -
      from that d(1) have "i < length ws" by simp
      with d(4) [OF that] show ?thesis by simp
    qed
  qed
  have "str_lower U (strip U (map (\<lambda>c. if word U c \<or> isspace U c \<or> c = HYPHEN then c else SPACE) ?s))
      = joined ?ws rs"
    by (simp only: 3 1 4)
  with 5 have 6: "to_snake_case U ?s = joined ?ws (map (\<lambda>r. [UNDERSCORE]) rs)"
    by (rule to_snake_case_joined)
  have "hd ?ws \<noteq> []" "?ws \<noteq> []" using ends(1) wsne by (simp_all add: hd_map)
  then have "joined ?ws (map (\<lambda>r. [UNDERSCORE]) rs) \<noteq> []"
    using joined_hd by blast
  then show ?thesis
    by (simp only: normalize_name_def Let_def 1 2 6) simp
qed

lemma normalize_name_single_run:
  assumes ok: "ucd_ok U"
    and h: "x \<noteq> [] \<and> y \<noteq> [] \<and> run \<noteq> []
      \<and> (\<forall>c\<in>set x \<union> set y. name_char U c \<and> c \<noteq> UNDERSCORE)
      \<and> (\<forall>c\<in>set run. c = HYPHEN \<or> c = SPACE)"
  shows "normalize_name U (x @ run @ y) = x @ [UNDERSCORE] @ y"
proof -
  have ag: "ascii_agree U" using ok by (rule ucd_ok_ascii)
  let ?P = "\<lambda>c. c = HYPHEN \<or> isspace U c"
  let ?s = "x @ run @ y"
  have sp: "isspace U SPACE" "\<not> isspace U HYPHEN"
    using ascii_tables(4) [OF ag, of 32] ascii_tables(4) [OF ag, of 45]
    by (simp_all add: ascii_space_def)
  have runP: "\<forall>c\<in>set run. ?P c" using h sp by auto
  have run_st: "\<forall>c\<in>set run. decomp U c = [c] \<and> ccc U c = 0 \<and> tolower U c = [c] \<and> c \<noteq> 931"
    using h ascii_tables [OF ag, of 32] ascii_tables [OF ag, of 45]
    by (auto simp: ascii_lower_def)
  have xy: "\<forall>c\<in>set x \<union> set y. name_char U c \<and> c \<noteq> UNDERSCORE" using h by simp
  have ends: "?s \<noteq> []" "\<not> isspace U (hd ?s)" "\<not> isspace U (last ?s)"
    using h by (auto simp: name_char_def hd_append)
  have 1: "strip U ?s = ?s"
    unfolding strip_def using ends by (rule strip_chars_ends)
  have all_st: "\<forall>c\<in>set ?s. decomp U c = [c] \<and> ccc U c = 0 \<and> tolower U c = [c] \<and> c \<noteq> 931"
    using xy run_st by (auto simp: name_char_def nfkd_stable_def)
  have "concat (map (decomp U) ?s) = ?s"
    using all_st by (intro concat_map_singleton) simp
  moreover have "filter (\<lambda>c. ccc U c = 0) ?s = ?s"
    using all_st by (intro filter_True) simp
  ultimately have 2: "remove_accents U ?s = ?s"
    by (simp only: remove_accents_decomp)
  have "\<forall>c\<in>set ?s. word U c \<or> isspace U c \<or> c = HYPHEN"
    using xy runP by (auto simp: name_char_def)
  then have 3: "map (\<lambda>c. if word U c \<or> isspace U c \<or> c = HYPHEN then c else SPACE) ?s = ?s"
    by (intro map_idI) simp
  have 4: "str_lower U ?s = ?s"
    unfolding str_lower_def using all_st by (intro lower_from_fixed) simp
  have xnP: "\<forall>c\<in>set x. \<not> ?P c" and ynP: "\<forall>c\<in>set y. \<not> ?P c"
    using xy by (auto simp: name_char_def)
  have 5: "sub_runs ?P [UNDERSCORE] ?s = x @ [UNDERSCORE] @ y"
    using sub_runs_append_not [OF xnP] sub_runs_run [OF _ runP ynP] h by simp
  have xnu: "\<forall>c\<in>set x. \<not> c = UNDERSCORE" and ynu: "\<forall>c\<in>set y. \<not> c = UNDERSCORE"
    using xy by auto
  have "sub_runs (\<lambda>c. c = UNDERSCORE) [UNDERSCORE] ([UNDERSCORE] @ y) = [UNDERSCORE] @ y"
    using ynu by (intro sub_runs_run) auto
  then have 6: "sub_runs (\<lambda>c. c = UNDERSCORE) [UNDERSCORE] (x @ [UNDERSCORE] @ y)
      = x @ [UNDERSCORE] @ y"
    using sub_runs_append_not [OF xnu, of "[UNDERSCORE]" "[UNDERSCORE] @ y"] by simp
  have "to_snake_case U ?s = x @ [UNDERSCORE] @ y"
    by (simp only: to_snake_case_def Let_def 3 1 4 5 6)
  then show ?thesis
    by (simp only: normalize_name_def Let_def 1 2) simp
qed

lemma normalize_name_split:
  assumes "split_at (separator U) ps qs"
    and "str_lower U (strip U (map (\<lambda>c. if word U c \<or> isspace U c \<or> c = HYPHEN then c else SPACE)
            (remove_accents U (strip U s)))) = joined ps qs"
  shows "normalize_name U s =
     (if joined ps (map (\<lambda>r. [UNDERSCORE]) qs) = [] then cp ''columna''
      else joined ps (map (\<lambda>r. [UNDERSCORE]) qs))"
  using to_snake_case_joined [OF assms] by (simp add: normalize_name_def)

lemma messy_prepared:
  "str_lower sample_ucd (strip sample_ucd
     (map (\<lambda>c. if word sample_ucd c \<or> isspace sample_ucd c \<or> c = HYPHEN then c else SPACE)
       (remove_accents sample_ucd (strip sample_ucd messy_header))))
   = joined [cp ''ano'', cp ''nuevo'', cp ''2025'', cp ''x'']
       [cp ''-'', cp '' '' @ [9] @ cp '' '', cp ''__'']"
  by (simp add: messy_header_def remove_accents_decomp strip_def
      strip_chars_def str_lower_def cp_def word_def sample_ucd_def spanish_base_def sigma_def
      ascii_alnum_def ascii_space_def ascii_lower_def)

lemma messy_split:
  "split_at (separator sample_ucd) [cp ''ano'', cp ''nuevo'', cp ''2025'', cp ''x'']
       [cp ''-'', cp '' '' @ [9] @ cp '' '', cp ''__'']"
proof (rule split_atI)
  show "length [cp ''ano'', cp ''nuevo'', cp ''2025'', cp ''x'']
      = length [cp ''-'', cp '' '' @ [9] @ cp '' '', cp ''__''] + 1" by simp
  show "\<not> separator sample_ucd c"
    if "w \<in> set [cp ''ano'', cp ''nuevo'', cp ''2025'', cp ''x'']" "c \<in> set w" for w c
    using that by (auto simp: cp_def separator_def sample_ucd_def ascii_space_def)
  show "r \<noteq> [] \<and> (\<forall>c\<in>set r. separator sample_ucd c)"
    if "r \<in> set [cp ''-'', cp '' '' @ [9] @ cp '' '', cp ''__'']" for r
    using that by (auto simp: cp_def separator_def sample_ucd_def ascii_space_def)
  show "[cp ''ano'', cp ''nuevo'', cp ''2025'', cp ''x''] ! i \<noteq> []"
    if "0 < i" "i < length [cp ''-'', cp '' '' @ [9] @ cp '' '', cp ''__'']" for i
  proof -
    from that have "i = 1 \<or> i = 2" by auto
    then show ?thesis by (auto simp: cp_def)
  qed
qed

lemma hola_split:
  "split_at (separator sample_ucd) [cp ''Hola'', cp ''Mundo'', cp ''x'']
       [cp '' '' @ [9] @ cp ''-'', cp ''__'']"
proof (rule split_atI)
  show "length [cp ''Hola'', cp ''Mundo'', cp ''x'']
      = length [cp '' '' @ [9] @ cp ''-'', cp ''__''] + 1" by simp
  show "\<not> separator sample_ucd c"
    if "w \<in> set [cp ''Hola'', cp ''Mundo'', cp ''x'']" "c \<in> set w" for w c
    using that by (auto simp: cp_def separator_def sample_ucd_def ascii_space_def)
  show "r \<noteq> [] \<and> (\<forall>c\<in>set r. separator sample_ucd c)"
    if "r \<in> set [cp '' '' @ [9] @ cp ''-'', cp ''__'']" for r
    using that by (auto simp: cp_def separator_def sample_ucd_def ascii_space_def)
  show "[cp ''Hola'', cp ''Mundo'', cp ''x''] ! i \<noteq> []"
    if "0 < i" "i < length [cp '' '' @ [9] @ cp ''-'', cp ''__'']" for i
  proof -
    from that have "i = 1" by auto
    then show ?thesis by (auto simp: cp_def)
  qed
qed

lemma hola_chars:
  "hd [cp ''Hola'', cp ''Mundo'', cp ''x''] \<noteq> [] \<and> last [cp ''Hola'', cp ''Mundo'', cp ''x''] \<noteq> []
   \<and> (\<forall>w\<in>set [cp ''Hola'', cp ''Mundo'', cp ''x'']. \<forall>c\<in>set w.
         ascii_alnum c \<or> name_char sample_ucd c)
   \<and> (\<forall>r\<in>set [cp '' '' @ [9] @ cp ''-'', cp ''__'']. \<forall>c\<in>set r. c < 128)"
  by (simp add: cp_def ascii_alnum_def)

section \<open>The claims on the names\<close>

text \<open>
  C5. For every list of raw headers, taken in their order, the first header with a given
  normalized name keeps that name, and a header whose normalized name \<open>k\<close> earlier
  headers share, \<open>k\<close> at least 1, gets the name with the suffix \<open>_k\<close>. In particular,
  on any database that agrees with ASCII, the headers \<open>Total\<close>, \<open>total\<close>, \<open>Total\<close> become
  \<open>total\<close>, \<open>total_1\<close>, \<open>total_2\<close>.
\<close>

theorem normalize_headers_dedup:
  "length (normalize_columns U hs) = length hs
   \<and> (\<forall>i<length hs.
        normalize_columns U hs ! i =
          (let name = normalize_name U (hs ! i);
               k = count_list (map (normalize_name U) (take i hs)) name
           in if k = 0 then name else name @ UNDERSCORE # str_of_nat k))
   \<and> (ascii_agree U \<longrightarrow>
        normalize_columns U [cp ''Total'', cp ''total'', cp ''Total'']
          = [cp ''total'', cp ''total_1'', cp ''total_2''])"
proof (intro conjI allI impI)
  show "length (normalize_columns U hs) = length hs"
    by (simp add: normalize_columns_spec)
next
  fix i assume "i < length hs"
  then show "normalize_columns U hs ! i =
      (let name = normalize_name U (hs ! i);
           k = count_list (map (normalize_name U) (take i hs)) name
       in if k = 0 then name else name @ UNDERSCORE # str_of_nat k)"
    by (simp add: normalize_columns_spec [of U hs] suffixed_def Let_def)
next
  assume "ascii_agree U"
  then show "normalize_columns U [cp ''Total'', cp ''total'', cp ''Total'']
      = [cp ''total'', cp ''total_1'', cp ''total_2'']"
    by (rule total_example)
qed

theorem normalize_headers_dedup_witness:
  "ascii_agree sample_ucd
   \<and> (2::nat) < length [cp ''Total'', cp ''total'', cp ''Total'']
   \<and> normalize_columns sample_ucd [cp ''Total'', cp ''total'', cp ''Total''] ! 2
       = cp ''total'' @ UNDERSCORE # str_of_nat 2
   \<and> normalize_columns sample_ucd [cp ''Total'', cp ''total'', cp ''Total'']
       = [cp ''total'', cp ''total_1'', cp ''total_2'']"
proof -
  let ?hs = "[cp ''Total'', cp ''total'', cp ''Total'']"
  note t = normalize_headers_dedup [of sample_ucd ?hs]
  have len: "(2::nat) < length ?hs" by simp
  from t have "\<forall>i<length ?hs. normalize_columns sample_ucd ?hs ! i =
          (let name = normalize_name sample_ucd (?hs ! i);
               k = count_list (map (normalize_name sample_ucd) (take i ?hs)) name
           in if k = 0 then name else name @ UNDERSCORE # str_of_nat k)"
    by (rule conjunct2 [THEN conjunct1])
  from this [rule_format, OF len]
  have 1: "normalize_columns sample_ucd ?hs ! 2 = cp ''total'' @ UNDERSCORE # str_of_nat 2"
    by (simp add: sample_total numeral_2_eq_2 Let_def)
  from t sample_ucd_ascii
  have 2: "normalize_columns sample_ucd ?hs = [cp ''total'', cp ''total_1'', cp ''total_2'']"
    by blast
  from 1 2 len sample_ucd_ascii show ?thesis by blast
qed

text \<open>
  C1. The names that \<open>normalize_headers\<close> produces are not always distinct: the
  dictionary \<open>seen\<close> holds the normalized names only, not the suffixed names the loop
  hands out, so the second \<open>a\<close> becomes \<open>a_1\<close> and the header \<open>a_1\<close> keeps its name.
\<close>

theorem normalize_headers_collision:
  "normalize_columns sample_ucd [cp ''a'', cp ''a'', cp ''a_1''] = [cp ''a'', cp ''a_1'', cp ''a_1'']"
  by (simp add: normalize_columns_def cp_def normalize_name_def to_snake_case_def Let_def
      remove_accents_decomp strip_def strip_chars_def str_lower_def word_def sample_ucd_def
      spanish_base_def sigma_def ascii_alnum_def ascii_space_def ascii_lower_def)

theorem normalize_headers_collision_witness:
  "\<not> distinct (normalize_columns sample_ucd [cp ''a'', cp ''a'', cp ''a_1''])"
  using normalize_headers_collision by simp

text \<open>
  C6, as the claim states it, fails: \<open>str.strip\<close> trims whitespace, not underscores, and
  a hyphen or an underscore at an end of the header gives a name that starts or ends
  with an underscore.
\<close>

theorem snake_case_end_underscores:
  "normalize_name sample_ucd (cp ''-a'') = cp ''_a'' \<and> hd (cp ''_a'') = UNDERSCORE
   \<and> normalize_name sample_ucd (cp ''a-'') = cp ''a_'' \<and> last (cp ''a_'') = UNDERSCORE"
  by (simp add: cp_def normalize_name_def to_snake_case_def
      remove_accents_decomp strip_def strip_chars_def str_lower_def word_def sample_ucd_def
      spanish_base_def sigma_def ascii_alnum_def ascii_space_def ascii_lower_def)

text \<open>
  C6, amended. On a well-formed database, for every header: the name holds no hyphen
  and no whitespace, and no two underscores side by side; it is in lower case;
  whitespace around the header is trimmed, so it changes nothing; and every maximal run
  of hyphens, whitespace and underscores becomes one underscore, whatever stands around
  it. Underscores at the ends are not trimmed. The runs are those of the text \<open>t\<close> that
  the substitutions work on, the header without its accents, cleaned, trimmed and in
  lower case: however \<open>t\<close> is cut into words and runs of separators, the name is the
  words with one underscore for every run, or \<open>columna\<close> when that is empty. So a header
  made of words of ASCII letters and digits or name characters, the first and the last
  not empty, with runs of hyphens, underscores and ASCII whitespace between them, gets
  the name made of its words in lower case with one underscore for every run.
\<close>

theorem normalize_name_shape:
  assumes ok: "ucd_ok U"
  shows "(\<forall>c\<in>set (normalize_name U s). c \<noteq> HYPHEN \<and> \<not> isspace U c)
    \<and> no_double UNDERSCORE (normalize_name U s)
    \<and> str_lower U (normalize_name U s) = normalize_name U s
    \<and> ((\<forall>c\<in>set a \<union> set b. isspace U c) \<longrightarrow>
          normalize_name U (a @ s @ b) = normalize_name U s)
    \<and> (x \<noteq> [] \<and> y \<noteq> [] \<and> run \<noteq> []
         \<and> (\<forall>c\<in>set x \<union> set y. name_char U c \<and> c \<noteq> UNDERSCORE)
         \<and> (\<forall>c\<in>set run. c = HYPHEN \<or> c = SPACE) \<longrightarrow>
          normalize_name U (x @ run @ y) = x @ [UNDERSCORE] @ y)
    \<and> (let t = str_lower U (strip U
                 (map (\<lambda>c. if word U c \<or> isspace U c \<or> c = HYPHEN then c else SPACE)
                   (remove_accents U (strip U s))))
       in (\<exists>ps qs. split_at (separator U) ps qs \<and> t = joined ps qs)
        \<and> (\<forall>ps qs. split_at (separator U) ps qs \<and> t = joined ps qs \<longrightarrow>
              normalize_name U s =
                (if joined ps (map (\<lambda>r. [UNDERSCORE]) qs) = [] then cp ''columna''
                 else joined ps (map (\<lambda>r. [UNDERSCORE]) qs))))
    \<and> (split_at (separator U) ws rs \<and> hd ws \<noteq> [] \<and> last ws \<noteq> []
         \<and> (\<forall>w\<in>set ws. \<forall>c\<in>set w. ascii_alnum c \<or> name_char U c)
         \<and> (\<forall>r\<in>set rs. \<forall>c\<in>set r. c < 128) \<longrightarrow>
          normalize_name U (joined ws rs)
            = joined (map (map ascii_lower) ws) (map (\<lambda>r. [UNDERSCORE]) rs))"
proof -
  have nc: "\<forall>c\<in>set (normalize_name U s). name_char U c"
    using ok by (rule normalize_name_chars)
  then have c1: "\<forall>c\<in>set (normalize_name U s). c \<noteq> HYPHEN \<and> \<not> isspace U c"
    by (simp add: name_char_def)
  have c2: "no_double UNDERSCORE (normalize_name U s)"
    by (rule normalize_no_double)
  have c3: "str_lower U (normalize_name U s) = normalize_name U s"
    unfolding str_lower_def using nc by (intro lower_from_fixed) (simp add: name_char_def)
  have c4: "(\<forall>c\<in>set a \<union> set b. isspace U c) \<longrightarrow>
      normalize_name U (a @ s @ b) = normalize_name U s"
  proof
    assume "\<forall>c\<in>set a \<union> set b. isspace U c"
    then have "strip U (a @ s @ b) = strip U s"
      unfolding strip_def by (intro strip_chars_pad) auto
    then show "normalize_name U (a @ s @ b) = normalize_name U s"
      by (simp add: normalize_name_def)
  qed
  have c5: "x \<noteq> [] \<and> y \<noteq> [] \<and> run \<noteq> []
         \<and> (\<forall>c\<in>set x \<union> set y. name_char U c \<and> c \<noteq> UNDERSCORE)
         \<and> (\<forall>c\<in>set run. c = HYPHEN \<or> c = SPACE) \<longrightarrow>
          normalize_name U (x @ run @ y) = x @ [UNDERSCORE] @ y"
    using normalize_name_single_run [OF ok] by blast
  have c6: "let t = str_lower U (strip U
                 (map (\<lambda>c. if word U c \<or> isspace U c \<or> c = HYPHEN then c else SPACE)
                   (remove_accents U (strip U s))))
       in (\<exists>ps qs. split_at (separator U) ps qs \<and> t = joined ps qs)
        \<and> (\<forall>ps qs. split_at (separator U) ps qs \<and> t = joined ps qs \<longrightarrow>
              normalize_name U s =
                (if joined ps (map (\<lambda>r. [UNDERSCORE]) qs) = [] then cp ''columna''
                 else joined ps (map (\<lambda>r. [UNDERSCORE]) qs)))"
    unfolding Let_def
  proof (intro conjI allI impI)
    show "\<exists>ps qs. split_at (separator U) ps qs
        \<and> str_lower U (strip U
            (map (\<lambda>c. if word U c \<or> isspace U c \<or> c = HYPHEN then c else SPACE)
              (remove_accents U (strip U s)))) = joined ps qs"
      by (rule split_exists)
  next
    fix ps qs
    assume "split_at (separator U) ps qs
        \<and> str_lower U (strip U
            (map (\<lambda>c. if word U c \<or> isspace U c \<or> c = HYPHEN then c else SPACE)
              (remove_accents U (strip U s)))) = joined ps qs"
    then show "normalize_name U s =
        (if joined ps (map (\<lambda>r. [UNDERSCORE]) qs) = [] then cp ''columna''
         else joined ps (map (\<lambda>r. [UNDERSCORE]) qs))"
      using normalize_name_split by blast
  qed
  have c7: "split_at (separator U) ws rs \<and> hd ws \<noteq> [] \<and> last ws \<noteq> []
         \<and> (\<forall>w\<in>set ws. \<forall>c\<in>set w. ascii_alnum c \<or> name_char U c)
         \<and> (\<forall>r\<in>set rs. \<forall>c\<in>set r. c < 128) \<longrightarrow>
          normalize_name U (joined ws rs)
            = joined (map (map ascii_lower) ws) (map (\<lambda>r. [UNDERSCORE]) rs)"
    using normalize_name_joined [OF ok] by blast
  show ?thesis by (intro conjI c1 c2 c3 c4 c5 c6 c7)
qed

theorem normalize_name_shape_witness:
  "ucd_ok sample_ucd
   \<and> normalize_name sample_ucd (cp '' '' @ cp ''b - c'' @ cp ''  '')
       = normalize_name sample_ucd (cp ''b - c'')
   \<and> normalize_name sample_ucd (cp ''ab'' @ cp '' - '' @ cp ''c'')
       = cp ''ab'' @ [UNDERSCORE] @ cp ''c''
   \<and> normalize_name sample_ucd messy_header = cp ''ano_nuevo_2025_x''
   \<and> normalize_name sample_ucd (cp ''Hola '' @ [9] @ cp ''-Mundo__x'') = cp ''hola_mundo_x''"
proof -
  note t = normalize_name_shape [OF sample_ucd_ok, where s = "cp ''b - c''" and a = "cp '' ''"
      and b = "cp ''  ''" and x = "cp ''ab''" and y = "cp ''c''" and run = "cp '' - ''"
      and ws = "[cp ''Hola'', cp ''Mundo'', cp ''x'']"
      and rs = "[cp '' '' @ [9] @ cp ''-'', cp ''__'']"]
  note m = normalize_name_shape [OF sample_ucd_ok, where s = messy_header, unfolded Let_def]
  have sp: "\<forall>c\<in>set (cp '' '') \<union> set (cp ''  ''). isspace sample_ucd c"
    by (simp add: cp_def sample_ucd_def ascii_space_def)
  have nm: "\<forall>c\<in>set (cp ''ab'') \<union> set (cp ''c''). name_char sample_ucd c \<and> c \<noteq> UNDERSCORE"
    by (simp add: cp_def name_char_ascii_lower [OF sample_ucd_ascii])
  have rn: "\<forall>c\<in>set (cp '' - ''). c = HYPHEN \<or> c = SPACE"
    by (simp add: cp_def)
  have ne: "cp ''ab'' \<noteq> [] \<and> cp ''c'' \<noteq> [] \<and> cp '' - '' \<noteq> []"
    by (simp add: cp_def)
  from t sp have 1: "normalize_name sample_ucd (cp '' '' @ cp ''b - c'' @ cp ''  '')
       = normalize_name sample_ucd (cp ''b - c'')" by blast
  from t nm rn ne have 2: "normalize_name sample_ucd (cp ''ab'' @ cp '' - '' @ cp ''c'')
       = cp ''ab'' @ [UNDERSCORE] @ cp ''c''" by blast
  from m messy_split messy_prepared
  have "normalize_name sample_ucd messy_header =
      (if joined [cp ''ano'', cp ''nuevo'', cp ''2025'', cp ''x'']
            (map (\<lambda>r. [UNDERSCORE]) [cp ''-'', cp '' '' @ [9] @ cp '' '', cp ''__'']) = []
       then cp ''columna''
       else joined [cp ''ano'', cp ''nuevo'', cp ''2025'', cp ''x'']
            (map (\<lambda>r. [UNDERSCORE]) [cp ''-'', cp '' '' @ [9] @ cp '' '', cp ''__'']))"
    by blast
  then have 3: "normalize_name sample_ucd messy_header = cp ''ano_nuevo_2025_x''"
    by (simp add: cp_def)
  from t hola_split hola_chars
  have "normalize_name sample_ucd (joined [cp ''Hola'', cp ''Mundo'', cp ''x'']
          [cp '' '' @ [9] @ cp ''-'', cp ''__''])
      = joined (map (map ascii_lower) [cp ''Hola'', cp ''Mundo'', cp ''x''])
          (map (\<lambda>r. [UNDERSCORE]) [cp '' '' @ [9] @ cp ''-'', cp ''__''])"
    by blast
  then have 4: "normalize_name sample_ucd (cp ''Hola '' @ [9] @ cp ''-Mundo__x'') = cp ''hola_mundo_x''"
    by (simp add: cp_def ascii_lower_def)
  from 1 2 3 4 sample_ucd_ok show ?thesis by blast
qed

text \<open>
  C7. On a well-formed database, normalizing a normalized name gives the name again,
  the fallback \<open>columna\<close> included.
\<close>

theorem normalize_idempotent:
  assumes "ucd_ok U"
  shows "normalize_name U (normalize_name U x) = normalize_name U x"
proof -
  let ?y = "normalize_name U x"
  have "\<forall>c\<in>set ?y. name_char U c" using assms by (rule normalize_name_chars)
  moreover have "no_double UNDERSCORE ?y" by (rule normalize_no_double)
  moreover have "?y \<noteq> []" by (rule normalize_nonempty)
  ultimately show ?thesis by (rule normalize_fixed)
qed

theorem normalize_idempotent_witness:
  "ucd_ok sample_ucd
   \<and> normalize_name sample_ucd (cp ''N'' @ [250] @ cp ''mero Cliente'') = cp ''numero_cliente''
   \<and> normalize_name sample_ucd (cp ''numero_cliente'') = cp ''numero_cliente''"
  using normalize_idempotent [OF sample_ucd_ok, of "cp ''N'' @ [250] @ cp ''mero Cliente''"]
    sample_ucd_ok sample_name
  by simp

text \<open>
  C8. On a well-formed database, every character of a normalized name is a word
  character (alphanumeric or the underscore), is its own lower case and not the capital
  sigma, is neither the hyphen nor whitespace, and carries no accent: it does not
  combine and has no decomposition.
\<close>

theorem normalize_name_charset:
  assumes "ucd_ok U"
  shows "\<forall>c\<in>set (normalize_name U s).
           (isalnum U c \<or> c = UNDERSCORE) \<and> tolower U c = [c] \<and> c \<noteq> 931
           \<and> c \<noteq> HYPHEN \<and> \<not> isspace U c \<and> decomp U c = [c] \<and> ccc U c = 0"
  using normalize_name_chars [OF assms, of s]
  by (simp add: name_char_def nfkd_stable_def word_def)

theorem normalize_name_charset_witness:
  "ucd_ok sample_ucd
   \<and> normalize_name sample_ucd (cp ''N'' @ [250] @ cp ''mero Cliente'') = cp ''numero_cliente''
   \<and> list_all (\<lambda>c. (isalnum sample_ucd c \<or> c = UNDERSCORE) \<and> tolower sample_ucd c = [c]
        \<and> c \<noteq> HYPHEN \<and> \<not> isspace sample_ucd c \<and> decomp sample_ucd c = [c]
        \<and> ccc sample_ucd c = 0) (cp ''numero_cliente'')"
  using normalize_name_charset [OF sample_ucd_ok, of "cp ''N'' @ [250] @ cp ''mero Cliente''"]
    sample_ucd_ok sample_name
  by (simp add: list_all_iff)

section \<open>The claim on the file names\<close>

lemma length_md5_digest: "length (md5_digest m) = 16"
  by (simp add: md5_digest_def le_bytes_def Let_def split: prod.splits)

lemma md5_digest_bytes: "\<forall>b\<in>set (md5_digest m). b < 256"
  by (auto simp: md5_digest_def le_bytes_def Let_def split: prod.splits)

lemma length_md5_hexdigest: "length (md5_hexdigest m) = 32"
proof -
  have "length (concat (map (\<lambda>b. [hex_digit (b div 16), hex_digit (b mod 16)]) bs))
      = 2 * length bs" for bs
    by (induction bs) auto
  then show ?thesis by (simp add: md5_hexdigest_def length_md5_digest)
qed

lemma hex_digit_not_reserved: "n < 16 \<Longrightarrow> \<not> reserved (hex_digit n)"
  by (auto simp: hex_digit_def reserved_def)

lemma md5_hexdigest_not_reserved: "\<forall>c\<in>set (md5_hexdigest m). \<not> reserved c"
proof
  fix c assume "c \<in> set (md5_hexdigest m)"
  then obtain b where b: "b \<in> set (md5_digest m)"
    and c: "c = hex_digit (b div 16) \<or> c = hex_digit (b mod 16)"
    by (auto simp: md5_hexdigest_def)
  from b have "b < 256" using md5_digest_bytes by blast
  then have "b div 16 < 16" "b mod 16 < 16" by simp_all
  with c show "\<not> reserved c" using hex_digit_not_reserved by auto
qed

lemma filename_base_not_reserved: "\<forall>c\<in>set (filename_base U name). \<not> reserved c"
proof -
  let ?b = "sub_runs reserved [UNDERSCORE] (to_snake_case U (remove_accents U name))"
  have "set ?b \<subseteq> set [UNDERSCORE] \<union> {c \<in> set (to_snake_case U (remove_accents U name)). \<not> reserved c}"
    by (rule set_sub_runs)
  then have "\<forall>c\<in>set ?b. \<not> reserved c" by (auto simp: reserved_def)
  moreover have "set (strip_chars (\<lambda>c. c = SPACE \<or> c = DOT) ?b) \<subseteq> set ?b"
    by (rule set_strip_chars)
  moreover have "\<forall>c\<in>set (cp ''columna''). \<not> reserved c"
    by (simp add: cp_def reserved_def)
  ultimately show ?thesis
    by (auto simp: filename_base_def Let_def)
qed

lemma name_char_scalar: "ucd_ok U \<Longrightarrow> name_char U c \<Longrightarrow> scalar_value c"
  by (auto simp: ucd_ok_def name_char_def word_def scalar_value_def)

lemma filename_base_scalar:
  assumes ok: "ucd_ok U"
  shows "\<forall>c\<in>set (filename_base U name). scalar_value c"
proof -
  let ?t = "to_snake_case U (remove_accents U name)"
  let ?b = "sub_runs reserved [UNDERSCORE] ?t"
  have t: "\<forall>c\<in>set ?t. name_char U c"
    using ok stable_remove_accents [OF ok] by (rule to_snake_case_name_chars)
  have "set ?b \<subseteq> set [UNDERSCORE] \<union> {c \<in> set ?t. \<not> reserved c}"
    by (rule set_sub_runs)
  with t name_char_underscore [OF ucd_ok_ascii [OF ok]]
  have "\<forall>c\<in>set ?b. name_char U c" by auto
  moreover have "set (strip_chars (\<lambda>c. c = SPACE \<or> c = DOT) ?b) \<subseteq> set ?b"
    by (rule set_strip_chars)
  ultimately have "\<forall>c\<in>set (filename_base U name). name_char U c"
    using columna_name_chars [OF ucd_ok_ascii [OF ok]]
    by (auto simp: filename_base_def Let_def)
  then show ?thesis using name_char_scalar [OF ok] by blast
qed

lemma encode_char_scalar: "scalar_value c \<Longrightarrow> \<exists>bs. encode_char c = Some bs"
  by (auto simp: scalar_value_def encode_char_def)

lemma those_map_Some: "\<forall>x\<in>set xs. \<exists>y. f x = Some y \<Longrightarrow> \<exists>ys. those (map f xs) = Some ys"
  by (induction xs) auto

lemma encode_utf8_scalar: "\<forall>c\<in>set s. scalar_value c \<Longrightarrow> \<exists>bytes. encode_utf8 s = Some bytes"
  using those_map_Some [of s encode_char] encode_char_scalar
  by (auto simp: encode_utf8_def)

lemma length_py_prefix: "0 \<le> n \<Longrightarrow> length (py_prefix n s) \<le> nat n"
  by (simp add: py_prefix_def)

lemma set_py_prefix: "set (py_prefix n s) \<subseteq> set s"
  by (auto simp: py_prefix_def dest: in_set_takeD)

lemma encode_utf8_ascii: "\<forall>c\<in>set s. c < 128 \<Longrightarrow> encode_utf8 s = Some s"
proof -
  have "\<forall>c\<in>set s. c < 128 \<Longrightarrow> those (map encode_char s) = Some (map (\<lambda>c. [c]) s)"
    by (induction s) (auto simp: encode_char_def)
  moreover have "concat (map (\<lambda>c. [c]) s) = s" by (induction s) auto
  ultimately show "\<forall>c\<in>set s. c < 128 \<Longrightarrow> encode_utf8 s = Some s"
    by (simp add: encode_utf8_def)
qed

lemma sample_filename_base:
  "filename_base sample_ucd (cp ''abcdefghij'') = cp ''abcdefghij''"
  "filename_base sample_ucd (cp ''A/b: c.d. '') = cp ''a_b_c_d''"
  by (simp_all add: filename_base_def to_snake_case_def remove_accents_decomp strip_def
      strip_chars_def str_lower_def cp_def word_def sample_ucd_def spanish_base_def sigma_def
      ascii_alnum_def ascii_space_def ascii_lower_def reserved_def)

text \<open>
  C9, as the claim states it, fails: below 9 the slice \<open>base[:max_len-9]\<close> has a
  negative bound, which cuts characters off the end, and the suffix alone has 9
  characters. With \<open>max_len\<close> 5 the name of \<open>abcdefghij\<close> has 15 characters.
\<close>

theorem safe_filename_too_long:
  "safe_filename sample_ucd (cp ''abcdefghij'') 5
     = Inr (cp ''abcdef_'' @ take 8 (md5_hexdigest (cp ''abcdefghij'')))
   \<and> length (cp ''abcdef_'' @ take 8 (md5_hexdigest (cp ''abcdefghij''))) = 15"
proof -
  have "encode_utf8 (cp ''abcdefghij'') = Some (cp ''abcdefghij'')"
    by (rule encode_utf8_ascii) (simp add: cp_def)
  then show ?thesis
    by (simp add: safe_filename_def sample_filename_base Let_def py_prefix_def
        length_md5_hexdigest) (simp add: cp_def)
qed

text \<open>
  C9, amended. On a well-formed database, for every input string and every \<open>max_len\<close>,
  \<open>safe_filename\<close> returns a name that holds none of the characters
  \<^verbatim>\<open>\ / : * ? " < > |\<close>; when \<open>max_len\<close> is at least 9 the name has at most
  \<open>max_len\<close> characters; a base within \<open>max_len\<close> is returned as it is; and when
  \<open>max_len\<close> is at least 9 and the base is longer, the name is the first \<open>max_len - 9\<close>
  characters of the base, an underscore and the first 8 hexadecimal digits of the MD5
  digest of the whole base.
\<close>

theorem safe_filename_bounded:
  assumes ok: "ucd_ok U"
  shows "\<exists>out. safe_filename U raw max_len = Inr out
     \<and> (\<forall>c\<in>set out. \<not> reserved c)
     \<and> (9 \<le> max_len \<longrightarrow> int (length out) \<le> max_len)
     \<and> (int (length (filename_base U raw)) \<le> max_len \<longrightarrow> out = filename_base U raw)
     \<and> (9 \<le> max_len \<and> max_len < int (length (filename_base U raw)) \<longrightarrow>
          (\<exists>bytes. encode_utf8 (filename_base U raw) = Some bytes
             \<and> out = take (nat (max_len - 9)) (filename_base U raw)
                        @ UNDERSCORE # take 8 (md5_hexdigest bytes)
             \<and> length (take 8 (md5_hexdigest bytes)) = 8))"
proof -
  let ?base = "filename_base U raw"
  obtain bytes where enc: "encode_utf8 ?base = Some bytes"
    using encode_utf8_scalar [OF filename_base_scalar [OF ok]] by blast
  let ?h = "take 8 (md5_hexdigest bytes)"
  have lh: "length ?h = 8" by (simp add: length_md5_hexdigest)
  have rh: "\<forall>c\<in>set ?h. \<not> reserved c"
    using md5_hexdigest_not_reserved by (auto dest: in_set_takeD)
  have rb: "\<forall>c\<in>set ?base. \<not> reserved c" by (rule filename_base_not_reserved)
  show ?thesis
  proof (cases "int (length ?base) > max_len")
    case False
    then have "safe_filename U raw max_len = Inr ?base"
      by (simp add: safe_filename_def Let_def)
    with False rb show ?thesis by auto
  next
    case True
    let ?out = "py_prefix (max_len - 9) ?base @ UNDERSCORE # ?h"
    have res: "safe_filename U raw max_len = Inr ?out"
      using True enc by (simp add: safe_filename_def Let_def)
    have r: "\<forall>c\<in>set ?out. \<not> reserved c"
      using rb rh set_py_prefix [of "max_len - 9" ?base] by (auto simp: reserved_def)
    have l: "9 \<le> max_len \<longrightarrow> int (length ?out) \<le> max_len"
      using length_py_prefix [of "max_len - 9" ?base] lh by auto
    have p: "9 \<le> max_len \<longrightarrow> ?out = take (nat (max_len - 9)) ?base @ UNDERSCORE # ?h"
      by (simp add: py_prefix_def)
    from res r l p True enc lh show ?thesis by auto
  qed
qed

theorem safe_filename_bounded_witness:
  "ucd_ok sample_ucd
   \<and> safe_filename sample_ucd (cp ''abcdefghij'') 9
       = Inr (UNDERSCORE # take 8 (md5_hexdigest (cp ''abcdefghij'')))
   \<and> length (UNDERSCORE # take 8 (md5_hexdigest (cp ''abcdefghij''))) = 9
   \<and> safe_filename sample_ucd (cp ''A/b: c.d. '') 100 = Inr (cp ''a_b_c_d'')"
proof -
  have enc: "encode_utf8 (cp ''abcdefghij'') = Some (cp ''abcdefghij'')"
    by (rule encode_utf8_ascii) (simp add: cp_def)
  have len: "int (length (cp ''a_b_c_d'')) \<le> 100" "(9::int) < int (length (cp ''abcdefghij''))"
    by (simp_all add: cp_def)
  from safe_filename_bounded [OF sample_ucd_ok, of "cp ''A/b: c.d. ''" 100] len
  have 1: "safe_filename sample_ucd (cp ''A/b: c.d. '') 100 = Inr (cp ''a_b_c_d'')"
    by (auto simp: sample_filename_base)
  from safe_filename_bounded [OF sample_ucd_ok, of "cp ''abcdefghij''" 9] len enc
  have 2: "safe_filename sample_ucd (cp ''abcdefghij'') 9
       = Inr (UNDERSCORE # take 8 (md5_hexdigest (cp ''abcdefghij'')))
     \<and> length (UNDERSCORE # take 8 (md5_hexdigest (cp ''abcdefghij''))) = 9"
    by (auto simp: sample_filename_base)
  from 1 2 sample_ucd_ok show ?thesis by blast
qed

section \<open>The claim on the reader\<close>

text \<open>
  C4, as the claim states it, fails: \<open>pd.ExcelFile(path)\<close> is the first statement of
  \<open>read_excel_all_sheets\<close>, so the workbook is opened and parsed before the argument is
  looked at; and when the file is missing, the error is that of the file, not that of
  the configuration.
\<close>

theorem invalid_config_after_open:
  "read_excel_all_sheets sample_files (cp ''book.xlsx'') (CfgStr (cp ''Hoja1''))
     = ([OpenWorkbook (cp ''book.xlsx'')], Inl InvalidConfig)
   \<and> read_excel_all_sheets sample_files (cp ''none.xlsx'') CfgOther
     = ([OpenWorkbook (cp ''none.xlsx'')], Inl FileNotFound)"
  by (simp add: read_excel_all_sheets_def sample_files_def cp_def)

text \<open>
  C4, amended. If the sheet-selection argument is neither \<open>"all"\<close> nor a list, the
  operation opens the workbook at the path and reads no sheet; it fails with the error
  of opening the workbook when there is one, and with the invalid-configuration error
  otherwise.
\<close>

theorem invalid_config_no_sheet_read:
  assumes "cfg \<noteq> CfgStr (cp ''all'')" and "\<forall>sheets. cfg \<noteq> CfgList sheets"
  shows "read_excel_all_sheets world path cfg =
     ([OpenWorkbook path],
      Inl (case world path of Inl e \<Rightarrow> e | Inr xls \<Rightarrow> InvalidConfig))"
  using assms
  by (cases cfg) (auto simp: read_excel_all_sheets_def split: sum.splits)

theorem invalid_config_no_sheet_read_witness:
  "CfgStr (cp ''Hoja1'') \<noteq> CfgStr (cp ''all'')
   \<and> read_excel_all_sheets sample_files (cp ''book.xlsx'') (CfgStr (cp ''Hoja1''))
       = ([OpenWorkbook (cp ''book.xlsx'')], Inl InvalidConfig)
   \<and> read_excel_all_sheets sample_files (cp ''book.xlsx'') (CfgStr (cp ''all''))
       = ([OpenWorkbook (cp ''book.xlsx''), ReadSheet (cp ''book.xlsx'') (cp ''Hoja1'')],
          Inr [(cp ''Hoja1'', sample_sheet)])"
proof -
  have ne: "CfgStr (cp ''Hoja1'') \<noteq> CfgStr (cp ''all'')" by (simp add: cp_def)
  have nl: "\<forall>sheets. CfgStr (cp ''Hoja1'') \<noteq> CfgList sheets" by simp
  have w: "sample_files (cp ''book.xlsx'') = Inr [(cp ''Hoja1'', sample_sheet)]"
    by (simp add: sample_files_def)
  from invalid_config_no_sheet_read [OF ne nl, of sample_files "cp ''book.xlsx''"] w
  have 1: "read_excel_all_sheets sample_files (cp ''book.xlsx'') (CfgStr (cp ''Hoja1''))
       = ([OpenWorkbook (cp ''book.xlsx'')], Inl InvalidConfig)" by simp
  have 2: "read_excel_all_sheets sample_files (cp ''book.xlsx'') (CfgStr (cp ''all''))
       = ([OpenWorkbook (cp ''book.xlsx''), ReadSheet (cp ''book.xlsx'') (cp ''Hoja1'')],
          Inr [(cp ''Hoja1'', sample_sheet)])"
    by (simp add: read_excel_all_sheets_def read_excel_def w)
  from ne 1 2 show ?thesis by blast
qed

section \<open>The claim on the types\<close>

lemma masked_filter:
  "map fst (filter snd (zip (map f s) (map g s))) = map f (filter g s)"
  by (induction s) auto

lemma series_dtype_rule:
  assumes "\<not> list_ex int_too_large s"
  shows "series_dtype parse s = Inr (series_rule parse s)"
proof -
  have n: "to_numeric parse s = Inr (map (coerce parse) s)"
    using assms by (simp add: to_numeric_def)
  have e: "(filter notna s = []) = (\<forall>v\<in>set s. v = Null)"
    by (auto simp: filter_empty_conv notna_def)
  have a: "list_all (\<lambda>x. x \<noteq> None) (map (coerce parse) (filter notna s))
      = (\<not> (\<exists>v\<in>set s. v \<noteq> Null \<and> coerce parse v = None))"
    by (auto simp: list_all_iff notna_def)
  have w: "list_all (\<lambda>x. case x of Some q \<Rightarrow> whole q | None \<Rightarrow> False)
        (map (coerce parse) (filter notna s))
      = (\<forall>v\<in>set s. v \<noteq> Null \<longrightarrow> (\<exists>q. coerce parse v = Some q \<and> whole q))"
    by (auto simp: list_all_iff notna_def split: option.splits)
  show ?thesis
    unfolding series_dtype_def series_rule_def n Let_def sum.case masked_filter e a w
    by auto
qed

lemma series_dtype_overflow:
  assumes "list_ex int_too_large s" "\<exists>v\<in>set s. v \<noteq> Null"
  shows "series_dtype parse s = Inl OverflowError"
proof -
  from assms(2) have "filter notna s \<noteq> []"
    by (auto simp: filter_empty_conv notna_def)
  with assms(1) show ?thesis by (simp add: series_dtype_def to_numeric_def)
qed

lemma filter_label_distinct:
  "distinct (map fst xs) \<Longrightarrow> (c, s) \<in> set xs \<Longrightarrow> filter (\<lambda>(l, d). l = c) xs = [(c, s)]"
proof (induction xs)
  case Nil
  then show ?case by simp
next
  case (Cons x xs)
  show ?case
  proof (cases "x = (c, s)")
    case True
    with Cons.prems have "c \<notin> fst ` set xs" by auto
    then have "filter (\<lambda>(l, d). l = c) xs = []"
      by (force simp: filter_empty_conv)
    with True show ?thesis by simp
  next
    case False
    with Cons.prems have in_xs: "(c, s) \<in> set xs" by auto
    with Cons.prems have "fst x \<noteq> c" by (auto simp: image_iff)
    with Cons in_xs show ?thesis by (auto split: prod.splits)
  qed
qed

lemma df_getitem_distinct:
  "distinct (df_columns df) \<Longrightarrow> (c, s) \<in> set (cols df) \<Longrightarrow> df_getitem df c = [s]"
  by (simp add: df_getitem_def df_columns_def filter_label_distinct)

lemma build_loop_distinct:
  assumes "\<forall>c\<in>set cs. \<exists>s. df_getitem df c = [s] \<and> \<not> list_ex int_too_large s"
  shows "\<exists>types. build_loop parse df cs acc = Inr types
     \<and> map_of types = (\<lambda>c. if c \<in> set cs then Some (column_dtype parse df c) else map_of acc c)"
  using assms
proof (induction cs arbitrary: acc)
  case Nil
  show ?case by simp
next
  case (Cons c cs)
  let ?acc = "AList.update c (column_dtype parse df c) acc"
  from Cons.prems obtain s where s: "df_getitem df c = [s]" "\<not> list_ex int_too_large s"
    by auto
  have step: "build_loop parse df (c # cs) acc = build_loop parse df cs ?acc"
    using s by (simp add: column_dtype_def series_dtype_rule)
  from Cons.IH [of ?acc] Cons.prems obtain types where
    t: "build_loop parse df cs ?acc = Inr types"
    and m: "map_of types = (\<lambda>k. if k \<in> set cs then Some (column_dtype parse df k) else map_of ?acc k)"
    by auto
  have "map_of types = (\<lambda>k. if k \<in> set (c # cs) then Some (column_dtype parse df k) else map_of acc k)"
    unfolding m by (auto simp: fun_eq_iff update_conv')
  with step t show ?case by simp
qed

lemma small_not_too_large:
  "\<not> int_too_large (Num (Finite 1))" "\<not> int_too_large (Num (Finite 2))"
  "\<not> int_too_large (Num (Finite 3))" "\<not> int_too_large (Num (Finite (5 / 2)))"
  by simp_all

lemma typed_sample_distinct: "distinct (df_columns typed_sample)"
  by (simp add: typed_sample_def df_columns_def cp_def)

lemma typed_sample_in_range: "\<forall>(c, s)\<in>set (cols typed_sample). \<not> list_ex int_too_large s"
  by (simp add: typed_sample_def small_not_too_large del: int_too_large.simps(1))

lemma not_whole_half: "\<not> whole (Finite (5 / 2))"
proof -
  have "\<lfloor>5 / 2 :: rat\<rfloor> = 2" by (simp add: floor_eq_iff)
  then show ?thesis by simp
qed

lemma whole_of_nat: "whole (Finite 1)" "whole (Finite 2)" "whole (Finite 3)"
  by simp_all

lemma typed_sample_dtypes:
  "build_simple_dtypes (\<lambda>t. None) typed_sample
     = Inr [(cp ''n'', T_int), (cp ''x'', T_float), (cp ''t'', T_string),
            (cp ''e'', T_string), (cp ''_sheet'', T_string)]"
  by (simp add: build_simple_dtypes_def typed_sample_def df_columns_def df_getitem_def cp_def
      series_dtype_def to_numeric_def notna_def Let_def not_whole_half whole_of_nat
      small_not_too_large del: whole.simps int_too_large.simps(1))

lemma collide_names:
  "normalize_columns sample_ucd [cp ''A'', cp ''a'', cp ''a_1''] = [cp ''a'', cp ''a_1'', cp ''a_1'']"
  by (simp add: normalize_columns_def cp_def normalize_name_def to_snake_case_def Let_def
      remove_accents_decomp strip_def strip_chars_def str_lower_def word_def sample_ucd_def
      spanish_base_def sigma_def ascii_alnum_def ascii_space_def ascii_lower_def)

lemma collide_unify:
  "unify_sheets sample_ucd first_seen [(cp ''Hoja1'', collide_sheet)] = Inr collide_table"
proof -
  have h: "df_columns collide_sheet = [cp ''A'', cp ''a'', cp ''a_1'']"
    by (simp add: collide_sheet_def df_columns_def)
  have n: "normalize_headers sample_ucd collide_sheet =
      \<lparr> nrows = 1,
        cols = [(cp ''a'', [Num (Finite 1)]), (cp ''a_1'', [Num (Finite 2)]),
                (cp ''a_1'', [Num (Finite 3)])] \<rparr>"
    unfolding normalize_headers_def h collide_names by (simp add: collide_sheet_def)
  show ?thesis
    unfolding unify_sheets_def Let_def
    by (simp add: n df_columns_def first_seen_def cp_def align_def add_missing_def
        df_select_def df_setitem_def pd_concat_def stack_column_def collide_table_def)
qed

text \<open>
  C2, as the claim states it, fails on a table with a repeated label. The sheet
  \<open>Hoja1\<close> has the distinct headers \<open>A\<close>, \<open>a\<close>, \<open>a_1\<close>; unifying it gives a table
  with the labels \<open>a\<close>, \<open>a_1\<close>, \<open>a_1\<close>, \<open>_sheet\<close>, and on that table type inference raises
  \<open>TypeError\<close> at the label \<open>a_1\<close> and returns no dictionary.
\<close>

theorem build_simple_dtypes_repeated_label:
  "distinct (df_columns collide_sheet)
   \<and> unify_sheets sample_ucd first_seen [(cp ''Hoja1'', collide_sheet)] = Inr collide_table
   \<and> build_simple_dtypes (\<lambda>t. None) collide_table = Inl TypeError"
proof -
  have "distinct (df_columns collide_sheet)"
    by (simp add: collide_sheet_def df_columns_def cp_def)
  moreover have "build_simple_dtypes (\<lambda>t. None) collide_table = Inl TypeError"
    by (simp add: build_simple_dtypes_def collide_table_def df_columns_def df_getitem_def
        cp_def series_dtype_def to_numeric_def notna_def Let_def whole_of_nat
        small_not_too_large del: whole.simps int_too_large.simps(1))
  ultimately show ?thesis using collide_unify by simp
qed

text \<open>
  C2, amended. For a table whose labels are distinct and that holds no integer too
  large for a float, type inference returns a dictionary that gives every column
  exactly one type: \<open>string\<close> to the column \<open>_sheet\<close>, whatever its values, and to any
  other column \<open>string\<close> when it has no value but null, \<open>int\<close> when every value that is
  not null parses as a number without fractional part, \<open>float\<close> when every such value
  parses as a number and one has a fractional part, and \<open>string\<close> when a value that is
  not null does not parse as a number.
\<close>

theorem build_simple_dtypes_rule:
  assumes "distinct (df_columns df)"
    and "\<forall>(c, s)\<in>set (cols df). \<not> list_ex int_too_large s"
  shows "\<exists>types. build_simple_dtypes parse df = Inr types
     \<and> dom (map_of types) = set (df_columns df)
     \<and> (\<forall>(c, s)\<in>set (cols df). \<exists>ty. map_of types c = Some ty
          \<and> (c = cp ''_sheet'' \<longrightarrow> ty = T_string)
          \<and> (c \<noteq> cp ''_sheet'' \<and> (\<forall>v\<in>set s. v = Null) \<longrightarrow> ty = T_string)
          \<and> (c \<noteq> cp ''_sheet'' \<and> (\<exists>v\<in>set s. v \<noteq> Null)
               \<and> (\<forall>v\<in>set s. v \<noteq> Null \<longrightarrow> (\<exists>q. coerce parse v = Some q \<and> whole q))
               \<longrightarrow> ty = T_int)
          \<and> (c \<noteq> cp ''_sheet'' \<and> (\<forall>v\<in>set s. v \<noteq> Null \<longrightarrow> coerce parse v \<noteq> None)
               \<and> (\<exists>v\<in>set s. \<exists>q. v \<noteq> Null \<and> coerce parse v = Some q \<and> \<not> whole q)
               \<longrightarrow> ty = T_float)
          \<and> (c \<noteq> cp ''_sheet'' \<and> (\<exists>v\<in>set s. v \<noteq> Null \<and> coerce parse v = None)
               \<longrightarrow> ty = T_string))"
proof -
  have one: "\<forall>c\<in>set (df_columns df). \<exists>s. df_getitem df c = [s] \<and> \<not> list_ex int_too_large s"
  proof
    fix c assume "c \<in> set (df_columns df)"
    then obtain s where cs: "(c, s) \<in> set (cols df)" by (auto simp: df_columns_def)
    with assms(1) have "df_getitem df c = [s]" by (rule df_getitem_distinct)
    moreover from cs assms(2) have "\<not> list_ex int_too_large s" by blast
    ultimately show "\<exists>s. df_getitem df c = [s] \<and> \<not> list_ex int_too_large s" by blast
  qed
  have "\<exists>types. build_simple_dtypes parse df = Inr types
      \<and> map_of types = (\<lambda>c. if c \<in> set (df_columns df) then Some (column_dtype parse df c) else None)"
    using build_loop_distinct [OF one, of parse "[]"]
    by (simp add: build_simple_dtypes_def cong: if_cong)
  then obtain types where
    r: "build_simple_dtypes parse df = Inr types"
    and m: "map_of types = (\<lambda>c. if c \<in> set (df_columns df) then Some (column_dtype parse df c) else None)"
    by blast
  have d: "dom (map_of types) = set (df_columns df)"
    unfolding m by (auto simp: dom_def)
  have "\<exists>ty. map_of types c = Some ty
          \<and> (c = cp ''_sheet'' \<longrightarrow> ty = T_string)
          \<and> (c \<noteq> cp ''_sheet'' \<and> (\<forall>v\<in>set s. v = Null) \<longrightarrow> ty = T_string)
          \<and> (c \<noteq> cp ''_sheet'' \<and> (\<exists>v\<in>set s. v \<noteq> Null)
               \<and> (\<forall>v\<in>set s. v \<noteq> Null \<longrightarrow> (\<exists>q. coerce parse v = Some q \<and> whole q))
               \<longrightarrow> ty = T_int)
          \<and> (c \<noteq> cp ''_sheet'' \<and> (\<forall>v\<in>set s. v \<noteq> Null \<longrightarrow> coerce parse v \<noteq> None)
               \<and> (\<exists>v\<in>set s. \<exists>q. v \<noteq> Null \<and> coerce parse v = Some q \<and> \<not> whole q)
               \<longrightarrow> ty = T_float)
          \<and> (c \<noteq> cp ''_sheet'' \<and> (\<exists>v\<in>set s. v \<noteq> Null \<and> coerce parse v = None)
               \<longrightarrow> ty = T_string)"
    if cs: "(c, s) \<in> set (cols df)" for c s
  proof -
    from cs have lab: "c \<in> set (df_columns df)" by (force simp: df_columns_def)
    from cs assms(1) have g: "df_getitem df c = [s]" by (simp add: df_getitem_distinct)
    have ty: "map_of types c = Some (column_dtype parse df c)" using lab by (simp add: m)
    show ?thesis
    proof (cases "c = cp ''_sheet''")
      case True
      with ty show ?thesis by (simp add: column_dtype_def)
    next
      case False
      then have "column_dtype parse df c = series_rule parse s"
        by (simp add: column_dtype_def g)
      with ty False show ?thesis
        by (simp add: series_rule_def) fastforce
    qed
  qed
  with r d show ?thesis by blast
qed

theorem build_simple_dtypes_rule_witness:
  "distinct (df_columns typed_sample)
   \<and> build_simple_dtypes (\<lambda>t. None) typed_sample
       = Inr [(cp ''n'', T_int), (cp ''x'', T_float), (cp ''t'', T_string),
              (cp ''e'', T_string), (cp ''_sheet'', T_string)]
   \<and> dom (map_of [(cp ''n'', T_int), (cp ''x'', T_float), (cp ''t'', T_string),
              (cp ''e'', T_string), (cp ''_sheet'', T_string)]) = set (df_columns typed_sample)"
proof -
  from build_simple_dtypes_rule [OF typed_sample_distinct typed_sample_in_range, of "\<lambda>t. None"]
  obtain types where "build_simple_dtypes (\<lambda>t. None) typed_sample = Inr types"
    and "dom (map_of types) = set (df_columns typed_sample)" by blast
  with typed_sample_dtypes typed_sample_distinct show ?thesis by auto
qed

end
